theory Spec2Isabelle
  imports Complex_Main "HOL-Library.AList"
begin

section \<open>Common values\<close>

text \<open>
  Python floats (scores, embedding components) are modelled as exact rationals where
  the properties concern ranks and bookkeeping; the rank fusion, whose order depends on
  the scores as computed, takes its float operations as a parameter. A Python
  \<open>str\<close> is a \<open>string\<close>, one \<open>char\<close> per character.
\<close>

type_synonym embedding = "rat list"

datatype py_error =
    ValueError | KeyError | ZeroDivisionError | AttributeError | DatabaseError | IntegrityError

text \<open>\<open>Result.success(data)\<close> and \<open>Result.failure(msg)\<close> of \<open>neura.core.types\<close>.\<close>

datatype ('e, 'a) Result = Success 'a | Failure 'e

fun is_success :: "('e, 'a) Result \<Rightarrow> bool" where
  "is_success (Success _) = True"
| "is_success (Failure _) = False"

section \<open>memory/embeddings.py: EmbeddingEngine\<close>

text \<open>
  The fields of \<open>EmbeddingEngine.__init__\<close> that the methods below read or write.
  \<open>_cache\<close> is a dict: an association list with distinct keys (\<open>AList.update\<close>
  overwrites in place or appends, \<open>AList.delete\<close> removes), so \<open>len(self._cache)\<close>
  is its length. \<open>_cache_order\<close> is a Python list.
\<close>

record EmbeddingEngine =
  model :: string
  dimension :: int
  degraded_mode :: bool
  cache :: "(string \<times> embedding) list"
  cache_order :: "string list"
  cache_size :: int
  cache_hits :: int
  cache_misses :: int

definition new_engine :: "string \<Rightarrow> int \<Rightarrow> int \<Rightarrow> EmbeddingEngine" where
  "new_engine m d csize =
     \<lparr> model = m, dimension = d, degraded_mode = False, cache = [], cache_order = [],
       cache_size = csize, cache_hits = 0, cache_misses = 0 \<rparr>"

definition cache_keys :: "EmbeddingEngine \<Rightarrow> string list" where
  "cache_keys s = map fst (cache s)"

text \<open>
  \<open>_add_to_cache(key, embedding)\<close>. The engine is mutated in place, so the state is
  returned together with the exception, if any, that left the method:
  \<open>list.remove\<close> raises ValueError when the key is not in the list, \<open>del\<close> raises
  KeyError when the key is not in the dict. \<open>pop(0)\<close> cannot fail here, the key has
  just been appended.
\<close>

definition add_to_cache ::
  "string \<Rightarrow> embedding \<Rightarrow> EmbeddingEngine \<Rightarrow> EmbeddingEngine \<times> py_error option" where
  "add_to_cache key emb s =
     (if key \<in> set (cache_keys s) \<and> key \<notin> set (cache_order s) then (s, Some ValueError)
      else
        let order1 = (if key \<in> set (cache_keys s) then remove1 key (cache_order s)
                      else cache_order s);
            cache1 = AList.update key emb (cache s);
            order2 = order1 @ [key]
        in if int (length cache1) > cache_size s
           then (let oldest_key = hd order2; order3 = tl order2 in
                 if oldest_key \<in> set (map fst cache1)
                 then (s\<lparr>cache := AList.delete oldest_key cache1, cache_order := order3\<rparr>, None)
                 else (s\<lparr>cache := cache1, cache_order := order3\<rparr>, Some KeyError))
           else (s\<lparr>cache := cache1, cache_order := order2\<rparr>, None))"

text \<open>
  What one HTTP POST to \<open>/api/embeddings\<close> can do: raise \<open>httpx.ConnectError\<close>,
  raise anything else (a timeout, say), or return a response with a status code and a
  body. The body is \<open>None\<close> when \<open>response.json()\<close> raises, else the value of
  \<open>data.get("embedding", [])\<close>. The network is a function from the model name
  and the prompt of the request to what happens.
\<close>

datatype http_reply = ConnectError | OtherException | Reply int "embedding option"

type_synonym network = "string \<Rightarrow> string \<Rightarrow> http_reply"

datatype embed_error =
    EmptyText | OllamaApiError int | EmptyEmbedding | CannotConnect | UnexpectedError
  | FallbackAlsoFailed | EmptyFallbackEmbedding | FallbackEmbeddingFailed

text \<open>Python's \<open>str.isspace\<close> on the characters a \<open>char\<close> can hold.\<close>

definition is_space :: "char \<Rightarrow> bool" where
  "is_space c = (let n = of_char c :: nat in
       (9 \<le> n \<and> n \<le> 13) \<or> (28 \<le> n \<and> n \<le> 32) \<or> n = 133 \<or> n = 160)"

definition strip :: "string \<Rightarrow> string" where
  "strip s = rev (dropWhile is_space (rev (dropWhile is_space s)))"

text \<open>
  \<open>_fallback_embed(text)\<close>: sets the degraded flag first, then posts once to the
  model \<open>mistral\<close>. The result carries the list of models posted to, in order.
\<close>

definition fallback_embed ::
  "network \<Rightarrow> string \<Rightarrow> EmbeddingEngine
     \<Rightarrow> ((embed_error, embedding) Result \<times> string list) \<times> EmbeddingEngine" where
  "fallback_embed net text s =
     (let s1 = s\<lparr>degraded_mode := True\<rparr> in
      case net ''mistral'' text of
        Reply code body \<Rightarrow>
          if code \<noteq> 200 then ((Failure FallbackAlsoFailed, [''mistral'']), s1)
          else (case body of
                  None \<Rightarrow> ((Failure FallbackEmbeddingFailed, [''mistral'']), s1)
                | Some e \<Rightarrow>
                    if e = [] then ((Failure EmptyFallbackEmbedding, [''mistral'']), s1)
                    else ((Success e, [''mistral'']), s1))
      | _ \<Rightarrow> ((Failure FallbackEmbeddingFailed, [''mistral'']), s1))"

text \<open>
  \<open>embed(text)\<close>: reject blank text, look the key \<open>model:text\<close> up in the cache,
  otherwise post to the primary model; a non-200 status or a connection error goes to
  the fallback unless the engine is already degraded; any other exception is a failure.
\<close>

definition cache_key :: "EmbeddingEngine \<Rightarrow> string \<Rightarrow> string" where
  "cache_key s text = model s @ '':'' @ text"

definition embed ::
  "network \<Rightarrow> string \<Rightarrow> EmbeddingEngine
     \<Rightarrow> ((embed_error, embedding) Result \<times> string list) \<times> EmbeddingEngine" where
  "embed net text s =
     (if text = [] \<or> strip text = [] then ((Failure EmptyText, []), s)
      else
        let key = cache_key s text in
        case map_of (cache s) key of
          Some e \<Rightarrow> ((Success e, []), s\<lparr>cache_hits := cache_hits s + 1\<rparr>)
        | None \<Rightarrow>
            let s1 = s\<lparr>cache_misses := cache_misses s + 1\<rparr> in
            (case net (model s1) text of
               Reply code body \<Rightarrow>
                 if code \<noteq> 200 then
                   (if \<not> degraded_mode s1
                    then (case fallback_embed net text s1 of
                            ((r, calls), s2) \<Rightarrow> ((r, model s1 # calls), s2))
                    else ((Failure (OllamaApiError code), [model s1]), s1))
                 else (case body of
                         None \<Rightarrow> ((Failure UnexpectedError, [model s1]), s1)
                       | Some e \<Rightarrow>
                           if e = [] then ((Failure EmptyEmbedding, [model s1]), s1)
                           else (case add_to_cache key e s1 of
                                   (s2, None) \<Rightarrow> ((Success e, [model s1]), s2)
                                 | (s2, Some _) \<Rightarrow> ((Failure UnexpectedError, [model s1]), s2)))
             | ConnectError \<Rightarrow>
                 if \<not> degraded_mode s1
                 then (case fallback_embed net text s1 of
                         ((r, calls), s2) \<Rightarrow> ((r, model s1 # calls), s2))
                 else ((Failure CannotConnect, [model s1]), s1)
             | OtherException \<Rightarrow> ((Failure UnexpectedError, [model s1]), s1)))"

text \<open>
  The bookkeeping the cache relies on: the order list holds exactly the keys of the
  dict, each once.
\<close>

definition cache_inv :: "EmbeddingEngine \<Rightarrow> bool" where
  "cache_inv s \<longleftrightarrow>
     distinct (cache_keys s) \<and> distinct (cache_order s) \<and>
     set (cache_order s) = set (cache_keys s)"

text \<open>
  The keys of the dict after \<open>self._cache[key] = embedding\<close> and the order list after
  \<open>self._cache_order.append(key)\<close>, before any eviction.
\<close>

definition keys_after :: "string \<Rightarrow> EmbeddingEngine \<Rightarrow> string list" where
  "keys_after k s = (if k \<in> set (cache_keys s) then cache_keys s else cache_keys s @ [k])"

definition order_after :: "string \<Rightarrow> EmbeddingEngine \<Rightarrow> string list" where
  "order_after k s =
     (if k \<in> set (cache_keys s) then remove1 k (cache_order s) else cache_order s) @ [k]"

text \<open>The keys that a put of \<open>k\<close> removes: held or inserted before, absent after.\<close>

definition evicted :: "string \<Rightarrow> embedding \<Rightarrow> EmbeddingEngine \<Rightarrow> string set" where
  "evicted k v s = insert k (set (cache_keys s)) - set (cache_keys (fst (add_to_cache k v s)))"

text \<open>Concrete engines and networks used to run the definitions.\<close>

definition net_ok :: network where
  "net_ok m t = Reply 200 (Some [1])"

definition engine_xy :: EmbeddingEngine where
  "engine_xy = (new_engine ''m'' 1 2)
     \<lparr> cache := [(''m:X'', [1]), (''m:Y'', [1])], cache_order := [''m:X'', ''m:Y''] \<rparr>"

text \<open>A sequence of \<open>embed\<close> calls on one engine, each on the state the last one left.\<close>

definition run_embeds :: "(network \<times> string) list \<Rightarrow> EmbeddingEngine \<Rightarrow> EmbeddingEngine" where
  "run_embeds calls s = foldl (\<lambda>s' (net, t). snd (embed net t s')) s calls"

text \<open>The models one \<open>embed\<close> call posts to, in order.\<close>

definition embed_calls :: "network \<Rightarrow> string \<Rightarrow> EmbeddingEngine \<Rightarrow> string list" where
  "embed_calls net t s = snd (fst (embed net t s))"

text \<open>The call gets past the blank-text check and does not find its key in the cache.\<close>

definition cache_miss :: "string \<Rightarrow> EmbeddingEngine \<Rightarrow> bool" where
  "cache_miss t s \<longleftrightarrow> t \<noteq> [] \<and> strip t \<noteq> [] \<and> map_of (cache s) (cache_key s t) = None"

text \<open>The primary model's request fails in one of the two ways that lead to the fallback.\<close>

definition primary_failed :: "network \<Rightarrow> string \<Rightarrow> EmbeddingEngine \<Rightarrow> bool" where
  "primary_failed net t s =
     (case net (model s) t of ConnectError \<Rightarrow> True | OtherException \<Rightarrow> False
      | Reply code body \<Rightarrow> code \<noteq> 200)"

text \<open>
  The behaviour the specification describes for a degraded engine: a call that misses the
  cache posts to the fallback model only.
\<close>

definition skips_to_fallback :: "network \<Rightarrow> string \<Rightarrow> EmbeddingEngine \<Rightarrow> bool" where
  "skips_to_fallback net t s \<longleftrightarrow>
     (degraded_mode s \<and> cache_miss t s \<longrightarrow> embed_calls net t s = [''mistral''])"

definition net_primary_down :: network where
  "net_primary_down m t = (if m = ''mistral'' then Reply 200 (Some [2]) else Reply 500 None)"

section \<open>memory/types.py and memory/graph.py: entries and rank fusion\<close>

datatype MemoryType = NOTE | CONVERSATION | OBSERVATION | THOUGHT | DECISION | LEARNING

text \<open>The values a metadata dict holds, as far as the code builds them.\<close>

datatype json = JString string | JInt int | JDict "(string \<times> json) list"

text \<open>
  \<open>MemoryEntry\<close>. The field \<open>id\<close> is \<open>entry_id\<close> here; \<open>metadata\<close> is a dict;
  \<open>timestamp\<close> is a point in time counted in ticks.
\<close>

record MemoryEntry =
  entry_id :: string
  content :: string
  content_hash :: string
  metadata :: "(string \<times> json) list"
  timestamp :: int
  memory_type :: MemoryType
  embedding_model :: "string option"

text \<open>A ranked result list: \<open>list[tuple[MemoryEntry, float]]\<close>, best first.\<close>

type_synonym scored = "(MemoryEntry \<times> rat) list"

definition ids :: "scored \<Rightarrow> string list" where
  "ids rs = map (\<lambda>(entry, _). entry_id entry) rs"

text \<open>
  The float operations of the fusion, over a type of scores that is compared by its
  linear order: \<open>fdiv_one n\<close> is \<open>1.0 / n\<close> for an int \<open>n \<noteq> 0\<close> (of a size a float
  can hold), \<open>fadd a b\<close> is \<open>a + b\<close> and \<open>fzero\<close> is \<open>0.0\<close>. The scores the fusion
  computes are sums of such quotients, finite floats, which \<open>sorted\<close> compares by their
  linear order. The fusion is defined over any such operations: what is proved of it for
  all of them holds of the scores as the floats round them.
\<close>

record 's float_ops =
  fdiv_one :: "int \<Rightarrow> 's"
  fadd :: "'s \<Rightarrow> 's \<Rightarrow> 's"
  fzero :: 's

text \<open>The operations without rounding, on rationals.\<close>

definition exact :: "rat float_ops" where
  "exact = \<lparr> fdiv_one = (\<lambda>n. 1 / of_int n), fadd = (\<lambda>a b. a + b), fzero = 0 \<rparr>"

text \<open>\<open>d.get(key, 0.0)\<close> on a dict of scores.\<close>

definition score_get :: "'s float_ops \<Rightarrow> (string \<times> 's) list \<Rightarrow> string \<Rightarrow> 's" where
  "score_get ops scores i = (case map_of scores i of None \<Rightarrow> fzero ops | Some v \<Rightarrow> v)"

text \<open>
  One of the two \<open>for rank, (entry, _) in enumerate(results)\<close> loops of
  \<open>_reciprocal_rank_fusion\<close>, from rank \<open>rank\<close> on, over the dicts \<open>scores\<close> and
  \<open>entries\<close> (both keep insertion order). \<open>1.0 / (rank + self.rrf_k)\<close> raises
  ZeroDivisionError when the sum is zero.
\<close>

fun rrf_pass ::
  "'s float_ops \<Rightarrow> int \<Rightarrow> nat \<Rightarrow> scored \<Rightarrow> (string \<times> 's) list \<times> (string \<times> MemoryEntry) list
     \<Rightarrow> py_error + (string \<times> 's) list \<times> (string \<times> MemoryEntry) list" where
  "rrf_pass ops k rank [] d = Inr d"
| "rrf_pass ops k rank ((entry, raw) # rest) (scores, entries) =
     (if int rank + k = 0 then Inl ZeroDivisionError
      else
        let rrf_score = fdiv_one ops (int rank + k);
            scores' = AList.update (entry_id entry)
                        (fadd ops (score_get ops scores (entry_id entry)) rrf_score) scores;
            entries' = AList.update (entry_id entry) entry entries
        in rrf_pass ops k (Suc rank) rest (scores', entries'))"

text \<open>The source tag of an id: in both lists, in the first only, or else.\<close>

definition rrf_source :: "scored \<Rightarrow> scored \<Rightarrow> string \<Rightarrow> string" where
  "rrf_source results1 results2 i =
     (if i \<in> set (ids results1) \<and> i \<in> set (ids results2) then ''hybrid''
      else if i \<in> set (ids results1) then ''fts''
      else ''semantic'')"

text \<open>
  The final loop over \<open>sorted_ids\<close>: \<open>entries[entry_id]\<close> and \<open>scores[entry_id]\<close>
  raise KeyError on a missing key.
\<close>

fun rrf_results ::
  "(string \<times> 's) list \<Rightarrow> (string \<times> MemoryEntry) list \<Rightarrow> scored \<Rightarrow> scored \<Rightarrow> string list
     \<Rightarrow> py_error + (MemoryEntry \<times> 's \<times> string) list" where
  "rrf_results scores entries results1 results2 [] = Inr []"
| "rrf_results scores entries results1 results2 (i # rest) =
     (case (map_of entries i, map_of scores i) of
        (Some e, Some s) \<Rightarrow>
          (case rrf_results scores entries results1 results2 rest of
             Inl err \<Rightarrow> Inl err
           | Inr out \<Rightarrow> Inr ((e, s, rrf_source results1 results2 i) # out))
      | _ \<Rightarrow> Inl KeyError)"

text \<open>
  \<open>sorted(scores.keys(), key=lambda x: scores[x], reverse=True)\<close>. Python's sort is
  stable, and with \<open>reverse=True\<close> keys of equal score still keep the order of
  \<open>scores.keys()\<close>: the list is reversed, sorted in ascending order by a stable sort, and
  reversed again. The keys are compared by the scores the passes stored.
\<close>

definition sorted_ids :: "('s::linorder) float_ops \<Rightarrow> (string \<times> 's) list \<Rightarrow> string list" where
  "sorted_ids ops scores = rev (sort_key (score_get ops scores) (rev (map fst scores)))"

text \<open>\<open>_reciprocal_rank_fusion\<close> over given float operations.\<close>

definition reciprocal_rank_fusion_with ::
  "('s::linorder) float_ops \<Rightarrow> int \<Rightarrow> scored \<Rightarrow> scored
     \<Rightarrow> py_error + (MemoryEntry \<times> 's \<times> string) list" where
  "reciprocal_rank_fusion_with ops k results1 results2 =
     (case rrf_pass ops k 0 results1 ([], []) of
        Inl err \<Rightarrow> Inl err
      | Inr d1 \<Rightarrow>
          (case rrf_pass ops k 0 results2 d1 of
             Inl err \<Rightarrow> Inl err
           | Inr (scores, entries) \<Rightarrow>
               rrf_results scores entries results1 results2 (sorted_ids ops scores)))"

text \<open>The fusion without rounding.\<close>

definition reciprocal_rank_fusion ::
  "int \<Rightarrow> scored \<Rightarrow> scored \<Rightarrow> py_error + (MemoryEntry \<times> rat \<times> string) list" where
  "reciprocal_rank_fusion k results1 results2 = reciprocal_rank_fusion_with exact k results1 results2"

text \<open>
  The specification's fused score: the rank of an id in a list is the position of its
  first occurrence, counted from 0; a list that holds the id contributes
  \<open>1 / (rank + k)\<close>, a list that does not contributes nothing.
\<close>

fun rank_from :: "nat \<Rightarrow> string \<Rightarrow> string list \<Rightarrow> nat option" where
  "rank_from n i [] = None"
| "rank_from n i (x # xs) = (if x = i then Some n else rank_from (Suc n) i xs)"

definition spec_rank_term :: "int \<Rightarrow> string \<Rightarrow> scored \<Rightarrow> rat" where
  "spec_rank_term k i rs =
     (case rank_from 0 i (ids rs) of None \<Rightarrow> 0 | Some r \<Rightarrow> 1 / of_int (int r + k))"

definition spec_fused_score :: "int \<Rightarrow> scored \<Rightarrow> scored \<Rightarrow> string \<Rightarrow> rat" where
  "spec_fused_score k results1 results2 i = spec_rank_term k i results1 + spec_rank_term k i results2"

text \<open>
  What one pass adds to the score of id \<open>i\<close> without rounding: \<open>1 / (rank + k)\<close> for
  every position of the list that holds \<open>i\<close>.
\<close>

fun rrf_contrib :: "int \<Rightarrow> nat \<Rightarrow> string \<Rightarrow> scored \<Rightarrow> rat" where
  "rrf_contrib k rank i [] = 0"
| "rrf_contrib k rank i ((entry, raw) # rest) =
     (if entry_id entry = i then 1 / of_int (int rank + k) else 0)
     + rrf_contrib k (Suc rank) i rest"

text \<open>
  What one pass makes of the score \<open>acc\<close> of id \<open>i\<close>, in the given float operations: at
  every position of the list that holds \<open>i\<close>, in order, \<open>1.0 / (rank + k)\<close> is added
  to it.
\<close>

fun pass_score :: "'s float_ops \<Rightarrow> int \<Rightarrow> nat \<Rightarrow> string \<Rightarrow> scored \<Rightarrow> 's \<Rightarrow> 's" where
  "pass_score ops k rank i [] acc = acc"
| "pass_score ops k rank i ((entry, raw) # rest) acc =
     pass_score ops k (Suc rank) i rest
       (if entry_id entry = i then fadd ops acc (fdiv_one ops (int rank + k)) else acc)"

text \<open>
  The score the two passes compute for an id: from \<open>0.0\<close>, the first list's additions,
  then the second's.
\<close>

definition computed_score :: "'s float_ops \<Rightarrow> int \<Rightarrow> scored \<Rightarrow> scored \<Rightarrow> string \<Rightarrow> 's" where
  "computed_score ops k results1 results2 i =
     pass_score ops k 0 i results2 (pass_score ops k 0 i results1 (fzero ops))"

text \<open>The order in which ids enter the dict: each at its first occurrence.\<close>

fun first_seen :: "string list \<Rightarrow> string list \<Rightarrow> string list" where
  "first_seen acc [] = acc"
| "first_seen acc (x # xs) = first_seen (if x \<in> set acc then acc else acc @ [x]) xs"

text \<open>
  The specification's tie-break over a fused output: of two entries with equal scores the
  one placed first has the more recent (or the same) timestamp.
\<close>

definition ties_by_recency :: "(MemoryEntry \<times> rat \<times> string) list \<Rightarrow> bool" where
  "ties_by_recency out \<longleftrightarrow>
     sorted_wrt (\<lambda>(e1, s1, src1) (e2, s2, src2). s1 = s2 \<longrightarrow> timestamp e1 \<ge> timestamp e2) out"

text \<open>
  The fused score without rounding, and the order in which the ids enter the dict of
  scores: the ids of the first list, then those of the second not seen before.
\<close>

definition fused_score :: "int \<Rightarrow> scored \<Rightarrow> scored \<Rightarrow> string \<Rightarrow> rat" where
  "fused_score k results1 results2 i = rrf_contrib k 0 i results1 + rrf_contrib k 0 i results2"

definition insertion_order :: "scored \<Rightarrow> scored \<Rightarrow> string list" where
  "insertion_order results1 results2 = first_seen [] (ids results1 @ ids results2)"

text \<open>Entries used to run the definitions.\<close>

definition mk_entry :: "string \<Rightarrow> int \<Rightarrow> MemoryEntry" where
  "mk_entry i t =
     \<lparr> entry_id = i, content = i, content_hash = i, metadata = [], timestamp = t,
       memory_type = NOTE, embedding_model = None \<rparr>"

text \<open>The ids and the scores of a fused output, in order.\<close>

definition out_ids :: "(MemoryEntry \<times> 's \<times> string) list \<Rightarrow> string list" where
  "out_ids out = map (\<lambda>(e, s, src). entry_id e) out"

definition out_scores :: "(MemoryEntry \<times> 's \<times> string) list \<Rightarrow> 's list" where
  "out_scores out = map (\<lambda>(e, s, src). s) out"

text \<open>The lists of the specification's example, and of a tie between an older and a newer entry.\<close>

definition lexical_ABC :: scored where
  "lexical_ABC = [(mk_entry ''A'' 1, 9/10), (mk_entry ''B'' 2, 8/10), (mk_entry ''C'' 3, 7/10)]"

definition semantic_BCA :: scored where
  "semantic_BCA = [(mk_entry ''B'' 2, 9/10), (mk_entry ''C'' 3, 8/10), (mk_entry ''A'' 1, 7/10)]"

definition lexical_old :: scored where
  "lexical_old = [(mk_entry ''A'' 1, 1)]"

definition semantic_new :: scored where
  "semantic_new = [(mk_entry ''B'' 2, 1)]"

text \<open>The output row of an id, given its score and the dict of entries the passes built.\<close>

definition fuse_row ::
  "(string \<Rightarrow> 's) \<Rightarrow> scored \<Rightarrow> scored \<Rightarrow> (string \<times> MemoryEntry) list \<Rightarrow> string \<Rightarrow> MemoryEntry \<times> 's \<times> string" where
  "fuse_row sf r1 r2 en i = (the (map_of en i), sf i, rrf_source r1 r2 i)"

text \<open>
  Operations that round, to run the fusion where rounding decides a tie: scores counted in
  tenths, the quotient rounded down. In the lists below, with \<open>k = 2\<close>, X has the
  exact score \<open>1/4 + 1/4\<close> and Y the exact score \<open>1/2\<close>; in tenths they get 4 and 5.
\<close>

definition tenths :: "int float_ops" where
  "tenths = \<lparr> fdiv_one = (\<lambda>n. 10 div n), fadd = (\<lambda>a b. a + b), fzero = 0 \<rparr>"

definition lexical_PQX :: scored where
  "lexical_PQX = [(mk_entry ''P'' 1, 9/10), (mk_entry ''Q'' 2, 8/10), (mk_entry ''X'' 3, 7/10)]"

definition semantic_YRX :: scored where
  "semantic_YRX = [(mk_entry ''Y'' 4, 9/10), (mk_entry ''R'' 5, 8/10), (mk_entry ''X'' 3, 7/10)]"

section \<open>memory/graph.py: the graph, recall and delete\<close>

text \<open>
  A row of the SQLite table \<open>memories\<close>; the table is the list of its rows in rowid
  order. Rows are typed, so \<open>_row_to_entry\<close> does not fail on them.
\<close>

record memory_row =
  row_id :: string
  row_content :: string
  row_hash :: string
  row_metadata :: "(string \<times> json) list"
  row_timestamp :: int
  row_type :: MemoryType
  row_model :: "string option"
  row_version :: string

definition row_to_entry :: "memory_row \<Rightarrow> MemoryEntry" where
  "row_to_entry row =
     \<lparr> entry_id = row_id row, content = row_content row, content_hash = row_hash row,
       metadata = row_metadata row, timestamp = row_timestamp row,
       memory_type = row_type row, embedding_model = row_model row \<rparr>"

text \<open>
  \<open>MemoryGraph\<close>: the configuration, the connection (\<open>None\<close> before \<open>_init_sqlite\<close>,
  else the table), the ids of the points in the Qdrant collection, the embedding engine
  and the two flags.
\<close>

record MemoryGraph =
  graph_model :: string
  graph_version :: string
  chunk_size :: int
  chunk_overlap :: int
  rrf_k :: int
  conn :: "memory_row list option"
  points :: "string list"
  embedding_engine :: "EmbeddingEngine option"
  qdrant_available :: bool
  initialized :: bool

record RecallResult =
  entry :: MemoryEntry
  score :: rat
  source :: string

text \<open>
  What the outside does during one call: the outcome of the FTS5 query (rows with their
  bm25 rank, or an exception), the embedding service, the outcome of the Qdrant search
  (hits as id and score, or an exception), of the Qdrant delete, and of the SQLite delete
  and commit.
\<close>

record environment =
  fts_query :: "string \<Rightarrow> int \<Rightarrow> MemoryType option \<Rightarrow> py_error + (memory_row \<times> rat) list"
  ollama :: network
  qdrant_search :: "embedding \<Rightarrow> int \<Rightarrow> MemoryType option \<Rightarrow> py_error + (string \<times> rat) list"
  qdrant_delete :: "string \<Rightarrow> py_error option"
  sqlite_delete :: "string \<Rightarrow> py_error option"

text \<open>
  \<open>_fts_search\<close>: every exception inside (a missing connection included) is caught and
  gives the empty list; the rank becomes \<open>1 / (1 + abs(rank))\<close>.
\<close>

definition fts_search ::
  "environment \<Rightarrow> string \<Rightarrow> int \<Rightarrow> MemoryType option \<Rightarrow> MemoryGraph \<Rightarrow> scored" where
  "fts_search env query limit mt g =
     (case conn g of
        None \<Rightarrow> []
      | Some rows \<Rightarrow>
          (case fts_query env query limit mt of
             Inl err \<Rightarrow> []
           | Inr found \<Rightarrow> map (\<lambda>(row, rank). (row_to_entry row, 1 / (1 + \<bar>rank\<bar>))) found))"

text \<open>The loop of \<open>_semantic_search\<close> over the hits: a hit without a row is skipped.\<close>

fun fetch_hits :: "memory_row list \<Rightarrow> (string \<times> rat) list \<Rightarrow> scored" where
  "fetch_hits rows [] = []"
| "fetch_hits rows ((hit_id, hit_score) # hits) =
     (case find (\<lambda>r. row_id r = hit_id) rows of
        None \<Rightarrow> fetch_hits rows hits
      | Some row \<Rightarrow> (row_to_entry row, hit_score) # fetch_hits rows hits)"

text \<open>
  \<open>_semantic_search\<close>, called with an engine: embed the query (the engine changes), search
  Qdrant, fetch the rows. A failed embedding and every exception give the empty list; so
  does a missing connection, with no hit (nothing to fetch) or with hits (the first fetch
  raises).
\<close>

definition semantic_search ::
  "environment \<Rightarrow> string \<Rightarrow> int \<Rightarrow> MemoryType option \<Rightarrow> EmbeddingEngine \<Rightarrow> MemoryGraph
     \<Rightarrow> scored \<times> MemoryGraph" where
  "semantic_search env query limit mt eng g =
     (case embed (ollama env) query eng of
        ((Failure err, calls), eng') \<Rightarrow> ([], g\<lparr>embedding_engine := Some eng'\<rparr>)
      | ((Success v, calls), eng') \<Rightarrow>
          (let g' = g\<lparr>embedding_engine := Some eng'\<rparr> in
           case qdrant_search env v limit mt of
             Inl err \<Rightarrow> ([], g')
           | Inr hits \<Rightarrow>
               (case conn g' of
                  None \<Rightarrow> ([], g')
                | Some rows \<Rightarrow> (fetch_hits rows hits, g'))))"

text \<open>The value of \<open>semantic_results\<close> in \<open>recall\<close>, and the graph after computing it.\<close>

definition semantic_results ::
  "environment \<Rightarrow> string \<Rightarrow> MemoryType option \<Rightarrow> MemoryGraph \<Rightarrow> scored \<times> MemoryGraph" where
  "semantic_results env query mt g =
     (case embedding_engine g of
        Some eng \<Rightarrow> if qdrant_available g then semantic_search env query 20 mt eng g else ([], g)
      | None \<Rightarrow> ([], g))"

text \<open>\<open>xs[:k]\<close>: a negative \<open>k\<close> drops the last \<open>-k\<close> elements.\<close>

definition py_take :: "int \<Rightarrow> 'a list \<Rightarrow> 'a list" where
  "py_take k xs = (if 0 \<le> k then take (nat k) xs else take (length xs - nat (- k)) xs)"

definition to_result :: "MemoryEntry \<times> rat \<times> string \<Rightarrow> RecallResult" where
  "to_result t = (case t of (e, s, src) \<Rightarrow> \<lparr> entry = e, score = s, source = src \<rparr>)"

text \<open>
  The body of the \<open>try\<close> in \<open>recall\<close>: the only exception that can leave it is the
  ZeroDivisionError of the fusion.
\<close>

definition recall_body ::
  "environment \<Rightarrow> string \<Rightarrow> int \<Rightarrow> MemoryType option \<Rightarrow> MemoryGraph
     \<Rightarrow> (py_error + RecallResult list) \<times> MemoryGraph" where
  "recall_body env query k mt g =
     (let fts_results = fts_search env query 20 mt g;
          (sem, g') = semantic_results env query mt g
      in if sem \<noteq> [] then
           (case reciprocal_rank_fusion (rrf_k g') fts_results sem of
              Inl err \<Rightarrow> (Inl err, g')
            | Inr combined \<Rightarrow> (Inr (map to_result (py_take k combined)), g'))
         else
           (Inr (map to_result (py_take k (map (\<lambda>(e, s). (e, s, ''fts'')) fts_results))), g'))"

text \<open>
  \<open>recall\<close>: an uninitialised graph gives the empty list; \<open>except Exception\<close> turns
  an exception of the body into the empty list.
\<close>

definition recall ::
  "environment \<Rightarrow> string \<Rightarrow> int \<Rightarrow> MemoryType option \<Rightarrow> MemoryGraph
     \<Rightarrow> (py_error + RecallResult list) \<times> MemoryGraph" where
  "recall env query k mt g =
     (if \<not> initialized g then (Inr [], g)
      else case recall_body env query k mt g of
             (Inl err, g') \<Rightarrow> (Inr [], g')
           | (Inr results, g') \<Rightarrow> (Inr results, g'))"

text \<open>
  \<open>delete(memory_id)\<close>: a failing Qdrant delete is logged and ignored; the SQLite delete
  removes the rows with that id, none if there is none; only an exception of the SQLite
  part (a missing connection included) gives a failure.
\<close>

definition delete ::
  "environment \<Rightarrow> string \<Rightarrow> MemoryGraph \<Rightarrow> (py_error, bool) Result \<times> MemoryGraph" where
  "delete env memory_id g =
     (let g1 = (if qdrant_available g then
                  (case qdrant_delete env memory_id of
                     None \<Rightarrow> g\<lparr>points := removeAll memory_id (points g)\<rparr>
                   | Some err \<Rightarrow> g)
                else g)
      in case conn g1 of
           None \<Rightarrow> (Failure AttributeError, g1)
         | Some rows \<Rightarrow>
             (case sqlite_delete env memory_id of
                Some err \<Rightarrow> (Failure err, g1)
              | None \<Rightarrow> (Success True,
                          g1\<lparr>conn := Some (filter (\<lambda>r. row_id r \<noteq> memory_id) rows)\<rparr>)))"

text \<open>The lexical search fails: no connection, or the FTS5 query raises.\<close>

definition lexical_failed :: "environment \<Rightarrow> string \<Rightarrow> MemoryType option \<Rightarrow> MemoryGraph \<Rightarrow> bool" where
  "lexical_failed env query mt g \<longleftrightarrow>
     conn g = None \<or> (case fts_query env query 20 mt of Inl err \<Rightarrow> True | Inr found \<Rightarrow> False)"

text \<open>
  The semantic side fails: no engine or no vector index, or the query embedding fails, or
  the Qdrant search raises, or the rows cannot be fetched.
\<close>

definition semantic_failed :: "environment \<Rightarrow> string \<Rightarrow> MemoryType option \<Rightarrow> MemoryGraph \<Rightarrow> bool" where
  "semantic_failed env query mt g \<longleftrightarrow>
     (case embedding_engine g of
        None \<Rightarrow> True
      | Some eng \<Rightarrow>
          \<not> qdrant_available g \<or>
          (case fst (fst (embed (ollama env) query eng)) of
             Failure err \<Rightarrow> True
           | Success v \<Rightarrow>
               (case qdrant_search env v 20 mt of Inl err \<Rightarrow> True | Inr hits \<Rightarrow> conn g = None)))"

text \<open>The lexical results as \<open>recall\<close> tags them when it skips the fusion.\<close>

definition lexical_only :: "scored \<Rightarrow> RecallResult list" where
  "lexical_only rs = map (\<lambda>(e, s). \<lparr> entry = e, score = s, source = ''fts'' \<rparr>) rs"

text \<open>A graph with two rows and no vector index, and environments to run it in.\<close>

definition mk_row :: "string \<Rightarrow> int \<Rightarrow> memory_row" where
  "mk_row i t =
     \<lparr> row_id = i, row_content = i, row_hash = i, row_metadata = [], row_timestamp = t,
       row_type = NOTE, row_model = None, row_version = ''embed_v1'' \<rparr>"

definition graph_ab :: MemoryGraph where
  "graph_ab =
     \<lparr> graph_model = ''m'', graph_version = ''embed_v1'', chunk_size = 500, chunk_overlap = 50,
       rrf_k = 60, conn = Some [mk_row ''a'' 1, mk_row ''b'' 2], points = [],
       embedding_engine = Some (new_engine ''m'' 1 2), qdrant_available = False,
       initialized = True \<rparr>"

definition env_lexical :: environment where
  "env_lexical =
     \<lparr> fts_query = (\<lambda>q limit mt. Inr [(mk_row ''a'' 1, - 1), (mk_row ''b'' 2, - 3)]),
       ollama = net_ok,
       qdrant_search = (\<lambda>v limit mt. Inl ValueError),
       qdrant_delete = (\<lambda>i. Some ValueError),
       sqlite_delete = (\<lambda>i. None) \<rparr>"

definition env_down :: environment where
  "env_down =
     \<lparr> fts_query = (\<lambda>q limit mt. Inl DatabaseError),
       ollama = (\<lambda>m t. ConnectError),
       qdrant_search = (\<lambda>v limit mt. Inl ValueError),
       qdrant_delete = (\<lambda>i. Some ValueError),
       sqlite_delete = (\<lambda>i. Some DatabaseError) \<rparr>"

definition graph_q :: MemoryGraph where
  "graph_q = graph_ab\<lparr>qdrant_available := True\<rparr>"

definition env_semantic :: environment where
  "env_semantic =
     \<lparr> fts_query = (\<lambda>q limit mt. Inl DatabaseError),
       ollama = net_ok,
       qdrant_search = (\<lambda>v limit mt. Inr [(''b'', 9/10)]),
       qdrant_delete = (\<lambda>i. None),
       sqlite_delete = (\<lambda>i. None) \<rparr>"

section \<open>memory/graph.py: chunking\<close>

text \<open>A slice bound of Python on a sequence of length \<open>n\<close>: negative bounds count from the end.\<close>

definition py_bound :: "int \<Rightarrow> nat \<Rightarrow> nat" where
  "py_bound a n = (if a < 0 then nat (int n + a) else min (nat a) n)"

text \<open>\<open>s[a:b]\<close> and \<open>s[a:]\<close>.\<close>

definition py_slice :: "string \<Rightarrow> int \<Rightarrow> int \<Rightarrow> string" where
  "py_slice s a b =
     (let lo = py_bound a (length s); hi = py_bound b (length s) in take (hi - lo) (drop lo s))"

definition py_slice_from :: "string \<Rightarrow> int \<Rightarrow> string" where
  "py_slice_from s a = drop (py_bound a (length s)) s"

text \<open>
  The \<open>while i < len(text)\<close> loop of the simple chunking. It does not end when
  \<open>chunk_size - chunk_overlap\<close> is not positive: not returning is \<open>None\<close>.
\<close>

partial_function (option) window_loop ::
  "int \<Rightarrow> int \<Rightarrow> string \<Rightarrow> int \<Rightarrow> string list \<Rightarrow> string list option" where
  "window_loop csize overlap text i chunks =
     (if i < int (length text)
      then window_loop csize overlap text (i + (csize - overlap))
             (chunks @ [py_slice text i (min (i + csize) (int (length text)))])
      else Some chunks)"

declare window_loop.simps [code]

definition newline :: char where
  "newline = CHR 0x0A"

text \<open>
  \<open>content.split("\n\n")\<close>: the pieces between the occurrences of the separator, found
  from the left, without overlap. \<open>acc\<close> is the piece being read.
\<close>

fun split_blank :: "string \<Rightarrow> string \<Rightarrow> string list" where
  "split_blank acc (a # b # rest) =
     (if a = newline \<and> b = newline then acc # split_blank [] rest
      else split_blank (acc @ [a]) (b # rest))"
| "split_blank acc [a] = [acc @ [a]]"
| "split_blank acc [] = [acc]"

text \<open>The paragraph loop with its final flush: \<open>cur\<close> is \<open>current_chunk\<close>.\<close>

fun pack_paragraphs :: "int \<Rightarrow> string \<Rightarrow> string list \<Rightarrow> string list \<Rightarrow> string list" where
  "pack_paragraphs csize cur chunks [] = (if cur \<noteq> [] then chunks @ [strip cur] else chunks)"
| "pack_paragraphs csize cur chunks (para # rest) =
     (if int (length cur) + int (length para) < csize
      then pack_paragraphs csize (cur @ para @ [newline, newline]) chunks rest
      else pack_paragraphs csize (para @ [newline, newline])
             (if cur \<noteq> [] then chunks @ [strip cur] else chunks) rest)"

text \<open>
  \<open>prev[-overlap:] if len(prev) > overlap else prev\<close>, and the loop that puts it and a
  space before every chunk but the first; \<open>prev\<close> is the chunk before, without its own
  prefix.
\<close>

definition overlap_of :: "int \<Rightarrow> string \<Rightarrow> string" where
  "overlap_of overlap prev =
     (if int (length prev) > overlap then py_slice_from prev (- overlap) else prev)"

fun overlap_from :: "int \<Rightarrow> string \<Rightarrow> string list \<Rightarrow> string list" where
  "overlap_from overlap prev [] = []"
| "overlap_from overlap prev (chunk # rest) =
     (overlap_of overlap prev @ '' '' @ chunk) # overlap_from overlap chunk rest"

definition add_overlap :: "int \<Rightarrow> string list \<Rightarrow> string list" where
  "add_overlap overlap chunks =
     (if length chunks > 1
      then (case chunks of [] \<Rightarrow> [] | first # rest \<Rightarrow> first # overlap_from overlap first rest)
      else chunks)"

text \<open>
  \<open>_chunk_content(content)\<close> with \<open>chunk_size\<close> and \<open>chunk_overlap\<close> as arguments;
  \<open>doc\<close> is the content.
\<close>

definition chunk_content :: "int \<Rightarrow> int \<Rightarrow> string \<Rightarrow> string list option" where
  "chunk_content csize overlap doc =
     (if int (length doc) \<le> csize then Some [doc]
      else
        let paragraphs = split_blank [] doc in
        if length paragraphs = 1 \<and> int (length (hd paragraphs)) > csize
        then window_loop csize overlap (hd paragraphs) 0 []
        else Some (add_overlap overlap (pack_paragraphs csize [] [] paragraphs)))"

text \<open>
  The specification's reconstruction: drop the first \<open>overlap\<close> characters of every
  chunk but the first and concatenate. Two strings differ in whitespace only when their
  other characters agree, in order.
\<close>

definition reconstruct :: "int \<Rightarrow> string list \<Rightarrow> string" where
  "reconstruct overlap chunks =
     (case chunks of [] \<Rightarrow> [] | first # rest \<Rightarrow> first @ concat (map (drop (nat overlap)) rest))"

definition non_space :: "string \<Rightarrow> string" where
  "non_space s = filter (\<lambda>c. \<not> is_space c) s"

definition has_blank_line :: "string \<Rightarrow> bool" where
  "has_blank_line s \<longleftrightarrow> length (split_blank [] s) \<noteq> 1"

text \<open>Chunk a content and reconstruct it from the chunks.\<close>

definition round_trip :: "int \<Rightarrow> int \<Rightarrow> string \<Rightarrow> string option" where
  "round_trip csize overlap doc = map_option (reconstruct overlap) (chunk_content csize overlap doc)"

text \<open>
  A text spans a list of chunks when it is those chunks in order with nothing but
  whitespace before, between and after them: once its leading whitespace is skipped it
  starts with the first chunk, what follows that chunk spans the other chunks, and what is
  left after the last chunk is whitespace. Two texts that span the same chunks differ in
  whitespace next to chunk boundaries only.
\<close>

fun spans :: "string list \<Rightarrow> string \<Rightarrow> bool" where
  "spans [] s = (dropWhile is_space s = [])"
| "spans (c # cs) s =
     (let t = dropWhile is_space s in take (length c) t = c \<and> spans cs (drop (length c) t))"

text \<open>
  Contents to run the chunker on: 5000 characters in one paragraph; a short paragraph and
  a long one, 5000 characters together; three paragraphs.
\<close>

definition doc_plain :: string where
  "doc_plain = replicate 5000 CHR ''a''"

definition doc_short_long :: string where
  "doc_short_long = ''short'' @ [newline, newline] @ replicate 4993 CHR ''b''"

definition doc_three :: string where
  "doc_three = ''abcdefg'' @ [newline, newline] @ ''hijklmnop'' @ [newline, newline] @ '' qrs ''"

section \<open>memory/graph.py: store\<close>

text \<open>
  \<open>str(i)\<close> for a non-negative \<open>i\<close>; \<open>digit_char\<close> is only applied to numbers
  below 10.
\<close>

definition digit_char :: "nat \<Rightarrow> char" where
  "digit_char n = ''0123456789'' ! n"

function str_nat :: "nat \<Rightarrow> string" where
  "str_nat n = (if n < 10 then [digit_char n] else str_nat (n div 10) @ [digit_char (n mod 10)])"
  by pat_completeness auto
termination
  by (relation "measure id") auto

declare str_nat.simps [simp del]

text \<open>
  What the outside gives one \<open>store\<close> call: \<open>uuid.uuid4().hex[:12]\<close>, the clock
  (\<open>CURRENT_TIMESTAMP\<close>, \<open>utcnow\<close>), the embedding service and the outcome of a Qdrant
  upsert of a point id. The hash \<open>hashlib.sha256(...).hexdigest()\<close> is a function
  \<open>H\<close> given to \<open>store\<close>.
\<close>

record store_env =
  uuid_hex :: string
  clock :: int
  embed_net :: network
  qdrant_upsert :: "string \<Rightarrow> py_error option"

datatype store_error = NotInitialized | IntegrityFailure | StoreFailure py_error

text \<open>\<open>get_by_hash\<close>: the first row with the hash; without a connection the call raises.\<close>

definition get_by_hash :: "string \<Rightarrow> MemoryGraph \<Rightarrow> py_error + MemoryEntry option" where
  "get_by_hash h g =
     (case conn g of
        None \<Rightarrow> Inl AttributeError
      | Some rows \<Rightarrow> Inr (map_option row_to_entry (find (\<lambda>r. row_hash r = h) rows)))"

text \<open>
  \<open>INSERT INTO memories\<close>: \<open>id\<close> is the primary key and \<open>content_hash\<close> is UNIQUE, so
  a row that repeats either raises IntegrityError and is not inserted.
\<close>

definition insert_row :: "memory_row \<Rightarrow> memory_row list \<Rightarrow> py_error + memory_row list" where
  "insert_row row rows =
     (if row_id row \<in> set (map row_id rows) \<or> row_hash row \<in> set (map row_hash rows)
      then Inl IntegrityError else Inr (rows @ [row]))"

text \<open>\<open>UPDATE memories SET timestamp = CURRENT_TIMESTAMP WHERE content_hash = ?\<close>.\<close>

definition touch_hash :: "string \<Rightarrow> int \<Rightarrow> memory_row list \<Rightarrow> memory_row list" where
  "touch_hash h now rows = map (\<lambda>r. if row_hash r = h then r\<lparr>row_timestamp := now\<rparr> else r) rows"

text \<open>\<open>ChunkMetadata(parent_id, chunk_index, total_chunks).dict()\<close>.\<close>

definition chunk_metadata_dict :: "string \<Rightarrow> nat \<Rightarrow> nat \<Rightarrow> json" where
  "chunk_metadata_dict parent i n_chunks =
     JDict [(''parent_id'', JString parent), (''chunk_index'', JInt (int i)),
            (''total_chunks'', JInt (int n_chunks)), (''overlap_start'', JInt 0),
            (''overlap_end'', JInt 0)]"

text \<open>
  The embedding step of one chunk: only with a vector index and an engine; a failed
  embedding and a failed upsert are logged and change nothing else.
\<close>

definition embed_chunk :: "store_env \<Rightarrow> string \<Rightarrow> string \<Rightarrow> MemoryGraph \<Rightarrow> MemoryGraph" where
  "embed_chunk env chunk_id chunk g =
     (case embedding_engine g of
        None \<Rightarrow> g
      | Some eng \<Rightarrow>
          if \<not> qdrant_available g then g
          else (case embed (embed_net env) chunk eng of
                  ((Failure err, calls), eng') \<Rightarrow> g\<lparr>embedding_engine := Some eng'\<rparr>
                | ((Success v, calls), eng') \<Rightarrow>
                    (case qdrant_upsert env chunk_id of
                       Some err \<Rightarrow> g\<lparr>embedding_engine := Some eng'\<rparr>
                     | None \<Rightarrow>
                         g\<lparr>embedding_engine := Some eng',
                           points := (if chunk_id \<in> set (points g) then points g
                                      else points g @ [chunk_id])\<rparr>)))"

text \<open>
  The loop \<open>for i, chunk in enumerate(chunks)\<close>, from index \<open>i\<close> on, \<open>n_chunks\<close> being
  \<open>len(chunks)\<close>. \<open>chunk_metadata = metadata or {}\<close> is the caller's dict itself when
  that is not empty, so the key \<open>chunk\<close> is then written into \<open>metadata\<close> too; the
  loop returns the dict as it leaves it. An INSERT that raises ends the loop: the rows
  inserted before stay in the open transaction, which nothing rolls back. A missing
  connection raises as well.
\<close>

fun store_chunks ::
  "(string \<Rightarrow> string) \<Rightarrow> store_env \<Rightarrow> string \<Rightarrow> string \<Rightarrow> MemoryType \<Rightarrow> nat \<Rightarrow> nat
     \<Rightarrow> string list \<Rightarrow> (string \<times> json) list \<Rightarrow> MemoryGraph
     \<Rightarrow> py_error option \<times> (string \<times> json) list \<times> MemoryGraph" where
  "store_chunks H env memory_id chash mt n_chunks i [] md g = (None, md, g)"
| "store_chunks H env memory_id chash mt n_chunks i (chunk # rest) md g =
     (let chunk_id = (if n_chunks > 1 then memory_id @ ''_chunk'' @ str_nat i else memory_id);
          row_md = (if n_chunks > 1
                    then AList.update ''chunk'' (chunk_metadata_dict memory_id i n_chunks) md
                    else md);
          md' = (if md \<noteq> [] then row_md else md);
          row = \<lparr> row_id = chunk_id, row_content = chunk,
                  row_hash = (if i = 0 then chash else H chunk),
                  row_metadata = row_md, row_timestamp = clock env, row_type = mt,
                  row_model = Some (graph_model g), row_version = graph_version g \<rparr>
      in case conn g of
           None \<Rightarrow> (Some AttributeError, md', g)
         | Some rows \<Rightarrow>
             (case insert_row row rows of
                Inl err \<Rightarrow> (Some err, md', g)
              | Inr rows' \<Rightarrow>
                  store_chunks H env memory_id chash mt n_chunks (Suc i) rest md'
                    (embed_chunk env chunk_id chunk (g\<lparr>conn := Some rows'\<rparr>))))"

text \<open>
  \<open>store(content, metadata, memory_type)\<close>; \<open>doc\<close> is the content and an empty
  \<open>md\<close> stands for no metadata. The result is \<open>None\<close> when the chunker does not
  return. The SQLite statements are taken to raise only for a missing connection or a
  violated constraint, and publishing the event is taken not to raise.
\<close>

definition store ::
  "(string \<Rightarrow> string) \<Rightarrow> store_env \<Rightarrow> string \<Rightarrow> (string \<times> json) list \<Rightarrow> MemoryType
     \<Rightarrow> MemoryGraph \<Rightarrow> ((store_error, MemoryEntry) Result \<times> MemoryGraph) option" where
  "store H env doc md mt g =
     (if \<not> initialized g then Some (Failure NotInitialized, g)
      else
        let chash = H doc in
        case get_by_hash chash g of
          Inl err \<Rightarrow> Some (Failure (StoreFailure err), g)
        | Inr (Some existing) \<Rightarrow>
            Some (Success existing,
                  g\<lparr>conn := map_option (touch_hash chash (clock env)) (conn g)\<rparr>)
        | Inr None \<Rightarrow>
            (let memory_id = ''mem_'' @ uuid_hex env in
             case (if int (length doc) > chunk_size g
                   then chunk_content (chunk_size g) (chunk_overlap g) doc else Some [doc]) of
               None \<Rightarrow> None
             | Some chunks \<Rightarrow>
                 (case store_chunks H env memory_id chash mt (length chunks) 0 chunks md g of
                    (Some IntegrityError, md', g') \<Rightarrow> Some (Failure IntegrityFailure, g')
                  | (Some err, md', g') \<Rightarrow> Some (Failure (StoreFailure err), g')
                  | (None, md', g') \<Rightarrow>
                      Some (Success \<lparr> entry_id = memory_id, content = doc, content_hash = chash,
                                      metadata = md', timestamp = clock env, memory_type = mt,
                                      embedding_model = Some (graph_model g') \<rparr>, g'))))"

text \<open>A fresh graph with the default sizes and no vector index, and a store environment.\<close>

definition fresh_graph :: MemoryGraph where
  "fresh_graph =
     \<lparr> graph_model = ''mxbai-embed-large'', graph_version = ''embed_v1'', chunk_size = 500,
       chunk_overlap = 50, rrf_k = 60, conn = Some [], points = [],
       embedding_engine = Some (new_engine ''mxbai-embed-large'' 1024 1000),
       qdrant_available = False, initialized = True \<rparr>"

definition env_store :: store_env where
  "env_store =
     \<lparr> uuid_hex = ''0123456789ab'', clock = 7, embed_net = net_ok,
       qdrant_upsert = (\<lambda>i. None) \<rparr>"

definition doc_600 :: string where
  "doc_600 = replicate 600 CHR ''a''"

text \<open>The ids two successive \<open>store\<close> calls of one content return, when both succeed.\<close>

definition store_twice_ids ::
  "(string \<Rightarrow> string) \<Rightarrow> store_env \<Rightarrow> store_env \<Rightarrow> string \<Rightarrow> MemoryGraph
     \<Rightarrow> (string \<times> string) option" where
  "store_twice_ids H env env' doc g =
     (case store H env doc [] NOTE g of
        Some (Success e1, g1) \<Rightarrow>
          (case store H env' doc [] NOTE g1 of
             Some (Success e2, g2) \<Rightarrow> Some (entry_id e1, entry_id e2)
           | _ \<Rightarrow> None)
      | _ \<Rightarrow> None)"

text \<open>The cache is well-formed and within its bound.\<close>

definition cache_ok :: "EmbeddingEngine \<Rightarrow> bool" where
  "cache_ok s \<longleftrightarrow> cache_inv s \<and> int (length (cache s)) \<le> cache_size s"

section \<open>The embedding cache\<close>

lemma keys_update:
  "map fst (AList.update k v al) = (if k \<in> set (map fst al) then map fst al else map fst al @ [k])"
  by (simp add: update_keys image_iff)

lemma order_after_props:
  assumes "cache_inv s"
  shows "distinct (order_after k s)" "set (order_after k s) = set (keys_after k s)"
    "order_after k s \<noteq> []" "distinct (keys_after k s)"
    "hd (order_after k s) \<in> set (keys_after k s)"
proof -
  show d: "distinct (order_after k s)" using assms
    by (auto simp: order_after_def cache_inv_def)
  show s: "set (order_after k s) = set (keys_after k s)" using assms
    by (auto simp: order_after_def keys_after_def cache_inv_def)
  show ne: "order_after k s \<noteq> []" by (simp add: order_after_def)
  show "distinct (keys_after k s)" using assms
    by (auto simp: keys_after_def cache_inv_def)
  show "hd (order_after k s) \<in> set (keys_after k s)"
    using ne s hd_in_set by blast
qed

text \<open>Under the invariant no branch of \<open>_add_to_cache\<close> raises, and the method reads:\<close>

lemma add_to_cache_unfold:
  assumes "cache_inv s"
  shows "add_to_cache k v s =
     (if int (length (keys_after k s)) > cache_size s
      then (s\<lparr>cache := AList.delete (hd (order_after k s)) (AList.update k v (cache s)),
              cache_order := tl (order_after k s)\<rparr>, None)
      else (s\<lparr>cache := AList.update k v (cache s), cache_order := order_after k s\<rparr>, None))"
proof -
  have a: "\<not> (k \<in> set (cache_keys s) \<and> k \<notin> set (cache_order s))"
    using assms by (simp add: cache_inv_def)
  have b: "map fst (AList.update k v (cache s)) = keys_after k s"
    by (simp add: keys_update keys_after_def cache_keys_def)
  have c: "length (AList.update k v (cache s)) = length (keys_after k s)"
    using arg_cong [OF b, of length] by simp
  have d: "hd (order_after k s) \<in> set (map fst (AList.update k v (cache s)))"
    unfolding b by (rule order_after_props(5) [OF assms])
  show ?thesis
    unfolding add_to_cache_def Let_def order_after_def [symmetric]
    using a c d by (simp only: if_False if_True split: if_splits)
qed

lemma keys_after_set: "set (keys_after k s) = insert k (set (cache_keys s))"
  by (auto simp: keys_after_def)

lemma keys_after_length:
  "length (keys_after k s) =
     (if k \<in> set (cache_keys s) then length (cache s) else Suc (length (cache s)))"
  by (simp add: keys_after_def cache_keys_def)

lemma add_to_cache_keys:
  assumes "cache_inv s"
  shows "cache_keys (fst (add_to_cache k v s)) =
     (if int (length (keys_after k s)) > cache_size s
      then removeAll (hd (order_after k s)) (keys_after k s) else keys_after k s)"
proof -
  have b: "map fst (AList.update k v (cache s)) = keys_after k s"
    by (simp add: keys_update keys_after_def cache_keys_def)
  show ?thesis
    unfolding add_to_cache_unfold [OF assms]
    by (simp add: cache_keys_def delete_keys b)
qed

lemma add_to_cache_order:
  assumes "cache_inv s"
  shows "cache_order (fst (add_to_cache k v s)) =
     (if int (length (keys_after k s)) > cache_size s
      then tl (order_after k s) else order_after k s)"
  unfolding add_to_cache_unfold [OF assms] by simp

lemma add_to_cache_inv:
  assumes "cache_inv s"
  shows "cache_inv (fst (add_to_cache k v s))"
proof -
  note p = order_after_props [OF assms, of k]
  have d3: "distinct (tl (order_after k s))" using p(1) by (rule distinct_tl)
  have s3: "set (tl (order_after k s)) = set (keys_after k s) - {hd (order_after k s)}"
    using p(1) p(2) p(3) by (cases "order_after k s") auto
  show ?thesis
    unfolding cache_inv_def add_to_cache_keys [OF assms] add_to_cache_order [OF assms]
    using p d3 s3 by (simp add: distinct_removeAll)
qed

lemma length_removeAll_distinct:
  "distinct xs \<Longrightarrow> x \<in> set xs \<Longrightarrow> Suc (length (removeAll x xs)) = length xs"
  by (induction xs) auto

lemma add_to_cache_length:
  assumes "cache_inv s"
  shows "length (cache (fst (add_to_cache k v s))) =
     (if int (length (keys_after k s)) > cache_size s
      then length (keys_after k s) - 1 else length (keys_after k s))"
proof -
  note p = order_after_props [OF assms, of k]
  have "length (cache (fst (add_to_cache k v s))) = length (cache_keys (fst (add_to_cache k v s)))"
    by (simp add: cache_keys_def)
  also have "\<dots> = (if int (length (keys_after k s)) > cache_size s
      then length (keys_after k s) - 1 else length (keys_after k s))"
    unfolding add_to_cache_keys [OF assms]
    using length_removeAll_distinct [OF p(4) p(5)] by (simp split: if_splits) arith
  finally show ?thesis .
qed

lemma add_to_cache_evicted:
  assumes "cache_inv s"
  shows "evicted k v s =
     (if int (length (keys_after k s)) > cache_size s then {hd (order_after k s)} else {})"
proof -
  note p = order_after_props [OF assms, of k]
  show ?thesis
    unfolding evicted_def add_to_cache_keys [OF assms] keys_after_set [symmetric]
    using p(5) by auto
qed

lemma cache_inv_lengths:
  assumes "cache_inv s"
  shows "length (cache_order s) = length (cache s)"
proof -
  from assms have d1: "distinct (cache_order s)" and d2: "distinct (cache_keys s)"
    and e: "set (cache_order s) = set (cache_keys s)" by (simp_all add: cache_inv_def)
  have "length (cache_order s) = card (set (cache_order s))" using d1 by (simp add: distinct_card)
  also have "\<dots> = card (set (cache_keys s))" by (simp add: e)
  also have "\<dots> = length (cache_keys s)" using d2 by (simp add: distinct_card)
  finally show ?thesis by (simp add: cache_keys_def)
qed

lemma order_after_head:
  assumes "cache_inv s" and "k \<notin> set (cache_keys s)"
  shows "hd (order_after k s) = hd (cache_order s @ [k])"
  using assms by (simp add: order_after_def)

lemma add_to_cache_evicted_oldest:
  assumes "cache_inv s" and "int (length (cache s)) \<le> cache_size s"
  shows "evicted k v s =
     (if k \<notin> set (cache_keys s) \<and> int (length (cache s)) = cache_size s
      then {hd (cache_order s @ [k])} else {})"
  unfolding add_to_cache_evicted [OF assms(1)] keys_after_length
  using assms order_after_head [OF assms(1), of k] by auto

lemma full_cache_order:
  assumes "cache_inv s" and "0 < cache_size s" and "int (length (cache s)) = cache_size s"
  shows "cache_order s \<noteq> []" and "hd (cache_order s @ [k]) = hd (cache_order s)"
    and "hd (cache_order s) \<in> set (cache_keys s)"
proof -
  have "length (cache_order s) = length (cache s)" by (rule cache_inv_lengths [OF assms(1)])
  with assms(2,3) show ne: "cache_order s \<noteq> []" by auto
  then show "hd (cache_order s @ [k]) = hd (cache_order s)" by simp
  from ne have "hd (cache_order s) \<in> set (cache_order s)" by simp
  with assms(1) show "hd (cache_order s) \<in> set (cache_keys s)" by (simp add: cache_inv_def)
qed

lemma add_to_cache_keeps_put:
  assumes "cache_inv s" and "int (length (cache s)) \<le> cache_size s" and "0 < cache_size s"
  shows "map_of (cache (fst (add_to_cache k v s))) k = Some v"
    and "last (cache_order (fst (add_to_cache k v s))) = k"
    and "evicted k v s \<subseteq> set (cache_keys s)"
proof -
  let ?full = "k \<notin> set (cache_keys s) \<and> int (length (cache s)) = cache_size s"
  have ev: "int (length (keys_after k s)) > cache_size s \<longleftrightarrow> ?full"
    unfolding keys_after_length using assms(2) by auto
  show "map_of (cache (fst (add_to_cache k v s))) k = Some v"
  proof (cases ?full)
    case True
    note f = full_cache_order [OF assms(1,3) conjunct2 [OF True]]
    from True have h: "hd (order_after k s) \<noteq> k"
      using f(2) [of k] f(3) order_after_head [OF assms(1), of k] by auto
    show ?thesis
      unfolding add_to_cache_unfold [OF assms(1)] using True ev h
      by (auto simp: delete_conv' update_conv')
  next
    case False
    then have "\<not> int (length (keys_after k s)) > cache_size s" using ev by blast
    then show ?thesis
      unfolding add_to_cache_unfold [OF assms(1)] by (simp add: update_conv')
  qed
  show "last (cache_order (fst (add_to_cache k v s))) = k"
  proof (cases ?full)
    case True
    then have "order_after k s = cache_order s @ [k]" "cache_order s \<noteq> []"
      using full_cache_order(1) [OF assms(1,3) conjunct2 [OF True]]
      by (simp_all add: order_after_def)
    then show ?thesis
      unfolding add_to_cache_order [OF assms(1)] using True ev
      by (cases "cache_order s") auto
  next
    case False
    then have "\<not> int (length (keys_after k s)) > cache_size s" using ev by blast
    then show ?thesis
      unfolding add_to_cache_order [OF assms(1)] by (simp add: order_after_def)
  qed
  show "evicted k v s \<subseteq> set (cache_keys s)"
    unfolding add_to_cache_evicted_oldest [OF assms(1,2)]
    using full_cache_order(2,3) [OF assms(1,3)] by auto
qed

lemma add_to_cache_others:
  assumes "cache_inv s" and "k' \<noteq> k" and "k' \<notin> evicted k v s"
  shows "map_of (cache (fst (add_to_cache k v s))) k' = map_of (cache s) k'"
proof (cases "int (length (keys_after k s)) > cache_size s")
  case True
  with assms(3) have "k' \<noteq> hd (order_after k s)"
    by (simp add: add_to_cache_evicted [OF assms(1)])
  then show ?thesis
    unfolding add_to_cache_unfold [OF assms(1)] using True assms(2)
    by (simp add: delete_conv' update_conv')
next
  case False
  then show ?thesis
    unfolding add_to_cache_unfold [OF assms(1)] using assms(2) by (simp add: update_conv')
qed

lemma add_to_cache_key_set:
  assumes "cache_inv s"
  shows "set (cache_keys (fst (add_to_cache k v s))) = insert k (set (cache_keys s)) - evicted k v s"
  unfolding add_to_cache_evicted [OF assms] add_to_cache_keys [OF assms]
  by (auto simp: keys_after_set)

text \<open>
  C9. After a put into a cache that holds at most \<open>cache_size\<close> entries (and whose order
  list matches its keys), the cache again holds at most \<open>cache_size\<close> entries and
  nothing is raised. The put removes at most one key: exactly one when the key is new and
  the cache was full, none otherwise; the key removed is the head of the order list once
  the put key is appended to it. The keys cached afterwards are the old keys and the put key, without the removed one, and
  every other entry keeps its value. With a positive bound the put key is cached with the
  new value and is the most recent of the order list, and the removed key is the head of
  the order list as it was, a key the cache held before.
\<close>

theorem add_to_cache_bounded:
  assumes "cache_inv s" and "int (length (cache s)) \<le> cache_size s"
  shows "snd (add_to_cache k v s) = None
       \<and> cache_inv (fst (add_to_cache k v s))
       \<and> cache_size (fst (add_to_cache k v s)) = cache_size s
       \<and> int (length (cache (fst (add_to_cache k v s)))) \<le> cache_size s
       \<and> card (evicted k v s) \<le> 1
       \<and> (card (evicted k v s) = 1 \<longleftrightarrow>
            k \<notin> set (cache_keys s) \<and> int (length (cache s)) = cache_size s)
       \<and> evicted k v s =
            (if k \<notin> set (cache_keys s) \<and> int (length (cache s)) = cache_size s
             then {hd (cache_order s @ [k])} else {})
       \<and> set (cache_keys (fst (add_to_cache k v s)))
            = insert k (set (cache_keys s)) - evicted k v s
       \<and> (\<forall>k'. k' \<noteq> k \<and> k' \<notin> evicted k v s \<longrightarrow>
             map_of (cache (fst (add_to_cache k v s))) k' = map_of (cache s) k')
       \<and> (0 < cache_size s \<longrightarrow>
             map_of (cache (fst (add_to_cache k v s))) k = Some v
           \<and> last (cache_order (fst (add_to_cache k v s))) = k
           \<and> evicted k v s \<subseteq> set (cache_keys s)
           \<and> (k \<notin> set (cache_keys s) \<and> int (length (cache s)) = cache_size s \<longrightarrow>
                evicted k v s = {hd (cache_order s)}))"
proof -
  have 1: "snd (add_to_cache k v s) = None"
    unfolding add_to_cache_unfold [OF assms(1)] by simp
  have 2: "cache_inv (fst (add_to_cache k v s))" by (rule add_to_cache_inv [OF assms(1)])
  have 3: "cache_size (fst (add_to_cache k v s)) = cache_size s"
    unfolding add_to_cache_unfold [OF assms(1)] by simp
  have 4: "int (length (cache (fst (add_to_cache k v s)))) \<le> cache_size s"
    unfolding add_to_cache_length [OF assms(1)] keys_after_length using assms(2) by auto
  have 5: "card (evicted k v s) \<le> 1"
    unfolding add_to_cache_evicted [OF assms(1)] by simp
  have 6: "card (evicted k v s) = 1 \<longleftrightarrow>
            k \<notin> set (cache_keys s) \<and> int (length (cache s)) = cache_size s"
    unfolding add_to_cache_evicted [OF assms(1)] keys_after_length using assms(2) by auto
  note 7 = add_to_cache_evicted_oldest [OF assms, of k v]
  note 8 = add_to_cache_key_set [OF assms(1), of k v]
  have 9: "\<forall>k'. k' \<noteq> k \<and> k' \<notin> evicted k v s \<longrightarrow>
             map_of (cache (fst (add_to_cache k v s))) k' = map_of (cache s) k'"
    using add_to_cache_others [OF assms(1)] by blast
  have 10: "map_of (cache (fst (add_to_cache k v s))) k = Some v
           \<and> last (cache_order (fst (add_to_cache k v s))) = k
           \<and> evicted k v s \<subseteq> set (cache_keys s)
           \<and> (k \<notin> set (cache_keys s) \<and> int (length (cache s)) = cache_size s \<longrightarrow>
                evicted k v s = {hd (cache_order s)})" if p: "0 < cache_size s"
    using add_to_cache_keeps_put [OF assms p, of k v] 7 full_cache_order(2) [OF assms(1) p]
    by simp
  show ?thesis by (intro conjI impI 1 2 3 4 5 7 8 9 10) (use 6 10 in auto)
qed

theorem add_to_cache_bounded_witness:
  "cache_inv engine_xy \<and> int (length (cache engine_xy)) \<le> cache_size engine_xy
   \<and> 0 < cache_size engine_xy
   \<and> ''m:Z'' \<notin> set (cache_keys engine_xy)
   \<and> int (length (cache engine_xy)) = cache_size engine_xy
   \<and> snd (add_to_cache ''m:Z'' [1] engine_xy) = None
   \<and> int (length (cache (fst (add_to_cache ''m:Z'' [1] engine_xy)))) \<le> 2
   \<and> card (evicted ''m:Z'' [1] engine_xy) = 1
   \<and> evicted ''m:Z'' [1] engine_xy = {''m:X''}
   \<and> set (cache_keys (fst (add_to_cache ''m:Z'' [1] engine_xy))) = {''m:Y'', ''m:Z''}
   \<and> map_of (cache (fst (add_to_cache ''m:Z'' [1] engine_xy))) ''m:Z'' = Some [1]
   \<and> map_of (cache (fst (add_to_cache ''m:Z'' [1] engine_xy))) ''m:Y'' = Some [1]"
proof -
  have i: "cache_inv engine_xy"
    by (simp add: cache_inv_def engine_xy_def new_engine_def cache_keys_def)
  have b: "int (length (cache engine_xy)) \<le> cache_size engine_xy"
    by (simp add: engine_xy_def new_engine_def)
  have k: "''m:Z'' \<notin> set (cache_keys engine_xy)"
    "int (length (cache engine_xy)) = cache_size engine_xy"
    by (simp_all add: engine_xy_def new_engine_def cache_keys_def)
  have c: "cache_size engine_xy = 2" "0 < cache_size engine_xy"
    by (simp_all add: engine_xy_def new_engine_def)
  have o: "hd (cache_order engine_xy) = ''m:X''" "set (cache_keys engine_xy) = {''m:X'', ''m:Y''}"
    "map_of (cache engine_xy) ''m:Y'' = Some [1]"
    by (simp_all add: engine_xy_def new_engine_def cache_keys_def)
  note t = add_to_cache_bounded [OF i b, of "''m:Z''" "[1]"]
  note n = t [THEN conjunct1]
  note l = t [THEN conjunct2, THEN conjunct2, THEN conjunct2, THEN conjunct1]
  note s8 = t [THEN conjunct2, THEN conjunct2, THEN conjunct2, THEN conjunct2, THEN conjunct2, THEN conjunct2, THEN conjunct2, THEN conjunct1]
  note s9 = t [THEN conjunct2, THEN conjunct2, THEN conjunct2, THEN conjunct2, THEN conjunct2, THEN conjunct2, THEN conjunct2, THEN conjunct2, THEN conjunct1]
  note s10 = t [THEN conjunct2, THEN conjunct2, THEN conjunct2, THEN conjunct2, THEN conjunct2, THEN conjunct2, THEN conjunct2, THEN conjunct2, THEN conjunct2]
  from s10 c(2) k have z: "map_of (cache (fst (add_to_cache ''m:Z'' [1] engine_xy))) ''m:Z'' = Some [1]"
    and "evicted ''m:Z'' [1] engine_xy = {hd (cache_order engine_xy)}" by simp_all
  then have e: "evicted ''m:Z'' [1] engine_xy = {''m:X''}" by (simp only: o(1))
  from s9 have y: "map_of (cache (fst (add_to_cache ''m:Z'' [1] engine_xy))) ''m:Y'' = Some [1]"
    unfolding e using o(3) by simp
  from s8 have ks: "set (cache_keys (fst (add_to_cache ''m:Z'' [1] engine_xy)))
       = {''m:Y'', ''m:Z''}" unfolding e o(2) by auto
  have cd: "card (evicted ''m:Z'' [1] engine_xy) = 1" unfolding e by simp
  show ?thesis using i b c k n l cd e ks z y by simp
qed

section \<open>The embedding provider\<close>

lemma fallback_embed_degraded: "degraded_mode (snd (fallback_embed net t s))"
  by (simp add: fallback_embed_def Let_def split: http_reply.splits option.splits)

lemma fallback_embed_calls: "snd (fst (fallback_embed net t s)) = [''mistral'']"
  by (simp add: fallback_embed_def Let_def split: http_reply.splits option.splits)

lemma fallback_embed_cache:
  "cache (snd (fallback_embed net t s)) = cache s"
  "cache_order (snd (fallback_embed net t s)) = cache_order s"
  "cache_size (snd (fallback_embed net t s)) = cache_size s"
  "model (snd (fallback_embed net t s)) = model s"
  by (simp_all add: fallback_embed_def Let_def split: http_reply.splits option.splits)

lemma add_to_cache_degraded: "degraded_mode (fst (add_to_cache k v s)) = degraded_mode s"
  by (simp add: add_to_cache_def Let_def)

lemma embed_blank: "t = [] \<or> strip t = [] \<Longrightarrow> embed net t s = ((Failure EmptyText, []), s)"
  by (simp add: embed_def)

lemma embed_hit:
  "t \<noteq> [] \<Longrightarrow> strip t \<noteq> [] \<Longrightarrow> map_of (cache s) (cache_key s t) = Some e \<Longrightarrow>
   embed net t s = ((Success e, []), s\<lparr>cache_hits := cache_hits s + 1\<rparr>)"
  by (simp add: embed_def Let_def)

lemma embed_miss:
  assumes "cache_miss t s"
  shows "embed net t s =
     (let s1 = s\<lparr>cache_misses := cache_misses s + 1\<rparr> in
      if primary_failed net t s then
        (if \<not> degraded_mode s
         then ((fst (fst (fallback_embed net t s1)), [model s, ''mistral'']), snd (fallback_embed net t s1))
         else ((Failure (case net (model s) t of Reply code _ \<Rightarrow> OllamaApiError code | _ \<Rightarrow> CannotConnect), [model s]), s1))
      else (case net (model s) t of
              Reply code (Some e) \<Rightarrow>
                if e = [] then ((Failure EmptyEmbedding, [model s]), s1)
                else (case add_to_cache (cache_key s t) e s1 of
                        (s2, None) \<Rightarrow> ((Success e, [model s]), s2)
                      | (s2, Some _) \<Rightarrow> ((Failure UnexpectedError, [model s]), s2))
            | _ \<Rightarrow> ((Failure UnexpectedError, [model s]), s1)))"
  using assms fallback_embed_calls [of net t "s\<lparr>cache_misses := cache_misses s + 1\<rparr>"]
  by (auto simp: embed_def cache_miss_def primary_failed_def Let_def split_beta
        split: http_reply.splits option.splits prod.splits)

lemma embed_calls_cases:
  "embed_calls net t s =
     (if cache_miss t s then
        (if primary_failed net t s \<and> \<not> degraded_mode s then [model s, ''mistral'']
         else [model s])
      else [])"
proof (cases "cache_miss t s")
  case True
  show ?thesis
    unfolding embed_calls_def embed_miss [OF True]
    using True by (simp add: Let_def split: http_reply.splits option.splits prod.splits)
next
  case False
  then consider "t = [] \<or> strip t = []"
    | e where "t \<noteq> []" "strip t \<noteq> []" "map_of (cache s) (cache_key s t) = Some e"
    by (auto simp: cache_miss_def)
  then show ?thesis
    using False by cases (simp_all add: embed_calls_def embed_blank embed_hit)
qed


lemma add_to_cache_degraded': "add_to_cache k v s = (s2, r) \<Longrightarrow> degraded_mode s2 = degraded_mode s"
  using add_to_cache_degraded [of k v s] by simp

lemma embed_degraded_after:
  "degraded_mode (snd (embed net t s)) \<longleftrightarrow>
     degraded_mode s \<or> (cache_miss t s \<and> primary_failed net t s)"
proof (cases "cache_miss t s")
  case True
  let ?s1 = "s\<lparr>cache_misses := cache_misses s + 1\<rparr>"
  show ?thesis
  proof (cases "primary_failed net t s")
    case pf: True
    show ?thesis
      unfolding embed_miss [OF True]
      using True pf fallback_embed_degraded [of net t ?s1]
      by (simp add: Let_def)
  next
    case pf: False
    have "degraded_mode (snd (embed net t s)) = degraded_mode s"
      unfolding embed_miss [OF True]
      using pf
      by (auto simp: Let_def split: http_reply.splits option.splits prod.splits
               dest: add_to_cache_degraded')
    then show ?thesis using pf by simp
  qed
next
  case False
  then consider "t = [] \<or> strip t = []"
    | e where "t \<noteq> []" "strip t \<noteq> []" "map_of (cache s) (cache_key s t) = Some e"
    by (auto simp: cache_miss_def)
  then show ?thesis
    using False by cases (simp_all add: embed_blank embed_hit)
qed

lemma run_embeds_Nil: "run_embeds [] s = s"
  by (simp add: run_embeds_def)

lemma run_embeds_Cons: "run_embeds ((net, t) # cs) s = run_embeds cs (snd (embed net t s))"
  by (simp add: run_embeds_def)

lemma run_embeds_degraded: "degraded_mode s \<Longrightarrow> degraded_mode (run_embeds cs s)"
proof (induction cs arbitrary: s)
  case Nil
  then show ?case by (simp add: run_embeds_Nil)
next
  case (Cons c cs)
  obtain net t where c: "c = (net, t)" by (cases c)
  have "degraded_mode (snd (embed net t s))"
    using Cons.prems by (simp add: embed_degraded_after)
  then show ?case unfolding c run_embeds_Cons by (rule Cons.IH)
qed

text \<open>
  C5, as the code has it. The degraded flag never reverts, over any sequence of
  \<open>embed\<close> calls. One call posts to the fallback model at most once, after the primary
  model, and exactly when it misses the cache, the primary request fails (connection
  error or a status other than 200) and the engine is not yet degraded; that attempt sets
  the flag whether or not the fallback answers. A degraded engine that misses the cache
  still posts to the primary model, and to it alone.
\<close>

theorem embed_fallback_one_way:
  "(degraded_mode s \<longrightarrow> degraded_mode (run_embeds cs s))
   \<and> (embed_calls net t s = [model s, ''mistral''] \<longleftrightarrow>
        cache_miss t s \<and> primary_failed net t s \<and> \<not> degraded_mode s)
   \<and> (embed_calls net t s \<noteq> [model s, ''mistral''] \<longrightarrow>
        embed_calls net t s = [] \<or> embed_calls net t s = [model s])
   \<and> (cache_miss t s \<and> primary_failed net t s \<longrightarrow> degraded_mode (snd (embed net t s)))
   \<and> (degraded_mode s \<and> cache_miss t s \<longrightarrow> embed_calls net t s = [model s])"
proof -
  have 1: "degraded_mode s \<longrightarrow> degraded_mode (run_embeds cs s)"
    by (simp add: run_embeds_degraded)
  have 2: "embed_calls net t s = [model s, ''mistral''] \<longleftrightarrow>
        cache_miss t s \<and> primary_failed net t s \<and> \<not> degraded_mode s"
    by (simp add: embed_calls_cases)
  have 3: "embed_calls net t s \<noteq> [model s, ''mistral''] \<longrightarrow>
        embed_calls net t s = [] \<or> embed_calls net t s = [model s]"
    by (simp add: embed_calls_cases)
  have 4: "cache_miss t s \<and> primary_failed net t s \<longrightarrow> degraded_mode (snd (embed net t s))"
    by (simp add: embed_degraded_after)
  have 5: "degraded_mode s \<and> cache_miss t s \<longrightarrow> embed_calls net t s = [model s]"
    by (simp add: embed_calls_cases)
  from 1 2 3 4 5 show ?thesis by blast
qed

lemma nonblank: "\<not> is_space c \<Longrightarrow> strip (c # cs) \<noteq> []"
  by (simp add: strip_def)

lemma s1_eq: "run_embeds [(net_primary_down, ''a'')] (new_engine ''m'' 1 2)
   = (new_engine ''m'' 1 2)\<lparr>degraded_mode := True, cache_misses := 1\<rparr>"
  by (simp add: run_embeds_def embed_def net_primary_down_def new_engine_def cache_key_def
      fallback_embed_def is_space_def strip_def Let_def)

theorem embed_fallback_one_way_witness:
  "cache_miss ''a'' (new_engine ''m'' 1 2)
   \<and> primary_failed net_primary_down ''a'' (new_engine ''m'' 1 2)
   \<and> \<not> degraded_mode (new_engine ''m'' 1 2)
   \<and> embed_calls net_primary_down ''a'' (new_engine ''m'' 1 2) = [''m'', ''mistral'']
   \<and> degraded_mode (snd (embed net_primary_down ''a'' (new_engine ''m'' 1 2)))
   \<and> degraded_mode (run_embeds [(net_primary_down, ''a'')] (new_engine ''m'' 1 2))
   \<and> cache_miss ''b'' (run_embeds [(net_primary_down, ''a'')] (new_engine ''m'' 1 2))
   \<and> embed_calls net_ok ''b'' (run_embeds [(net_primary_down, ''a'')] (new_engine ''m'' 1 2))
        = [''m'']
   \<and> degraded_mode (run_embeds [(net_ok, ''b'')]
        (run_embeds [(net_primary_down, ''a'')] (new_engine ''m'' 1 2)))"
proof -
  let ?s0 = "new_engine ''m'' 1 2"
  let ?s1 = "run_embeds [(net_primary_down, ''a'')] ?s0"
  have a: "cache_miss ''a'' ?s0"
    by (simp add: cache_miss_def new_engine_def strip_def is_space_def)
  have b: "primary_failed net_primary_down ''a'' ?s0"
    by (simp add: primary_failed_def net_primary_down_def new_engine_def)
  have c: "\<not> degraded_mode ?s0" by (simp add: new_engine_def)
  have m: "model ?s0 = ''m''" by (simp add: new_engine_def)
  have d: "degraded_mode ?s1" by (simp add: s1_eq)
  have e: "cache_miss ''b'' ?s1"
    unfolding s1_eq by (simp add: cache_miss_def new_engine_def strip_def is_space_def)
  have m1: "model ?s1 = ''m''" unfolding s1_eq by (simp add: new_engine_def)
  show ?thesis
    using embed_fallback_one_way [of ?s0 "[]" net_primary_down "''a''"]
      embed_fallback_one_way [of ?s1 "[(net_ok, ''b'')]" net_ok "''b''"]
      a b c d e m m1
    by simp
qed

text \<open>
  C5 as stated fails: after a fallback has switched the engine to degraded mode, the next
  call that misses the cache posts to the primary model, not straight to the fallback.
\<close>

theorem degraded_embed_posts_to_primary_counterexample:
  "\<not> skips_to_fallback net_ok ''b''
       (run_embeds [(net_primary_down, ''a'')] (new_engine ''m'' 1 2))"
  unfolding s1_eq
  by (simp add: skips_to_fallback_def embed_calls_def cache_miss_def embed_def net_ok_def
      new_engine_def cache_key_def add_to_cache_def cache_keys_def is_space_def strip_def Let_def)

text \<open>
  C4 at the scenario of the claim, capacity 2: embed X, embed Y, embed X again (a hit,
  counted), embed Z. The hit leaves the order list as it was, so the put of Z evicts X
  and keeps Y.
\<close>

theorem cache_hit_keeps_eviction_order:
  "cache_keys (run_embeds [(net_ok, ''X''), (net_ok, ''Y''), (net_ok, ''X''), (net_ok, ''Z'')]
      (new_engine ''m'' 1 2)) = [''m:Y'', ''m:Z'']
   \<and> cache_hits (run_embeds [(net_ok, ''X''), (net_ok, ''Y''), (net_ok, ''X'')]
      (new_engine ''m'' 1 2)) = 1
   \<and> cache_order (run_embeds [(net_ok, ''X''), (net_ok, ''Y''), (net_ok, ''X'')]
      (new_engine ''m'' 1 2)) = [''m:X'', ''m:Y'']"
  by (simp add: run_embeds_def embed_def net_ok_def new_engine_def cache_key_def add_to_cache_def
      cache_keys_def is_space_def strip_def Let_def)

section \<open>Rank fusion\<close>

lemma score_get_update:
  "score_get ops (AList.update i v sc) j = (if j = i then v else score_get ops sc j)"
  by (simp add: score_get_def update_conv')

lemma first_seen_set: "set (first_seen acc xs) = set acc \<union> set xs"
  by (induction xs arbitrary: acc) auto

lemma first_seen_distinct: "distinct acc \<Longrightarrow> distinct (first_seen acc xs)"
  by (induction xs arbitrary: acc) auto

lemma first_seen_append: "first_seen acc (xs @ ys) = first_seen (first_seen acc xs) ys"
  by (induction xs arbitrary: acc) auto

lemma ids_Cons: "ids ((e, raw) # rs) = entry_id e # ids rs"
  by (simp add: ids_def)

lemma ids_append: "ids (xs @ ys) = ids xs @ ids ys"
  by (simp add: ids_def)

lemma rrf_pass_props:
  assumes "0 < k"
  shows "\<exists>sc' en'. rrf_pass ops k r rs (sc, en) = Inr (sc', en')
    \<and> map fst sc' = first_seen (map fst sc) (ids rs)
    \<and> map fst en' = first_seen (map fst en) (ids rs)
    \<and> (\<forall>i. score_get ops sc' i = pass_score ops k r i rs (score_get ops sc i))
    \<and> (\<forall>i e. map_of en' i = Some e \<longrightarrow>
          map_of en i = Some e \<or> (e \<in> fst ` set rs \<and> entry_id e = i))"
proof (induction rs arbitrary: r sc en)
  case Nil
  then show ?case by (simp add: ids_def)
next
  case (Cons x rs)
  obtain e raw where x: "x = (e, raw)" by (cases x)
  let ?sc = "AList.update (entry_id e)
               (fadd ops (score_get ops sc (entry_id e)) (fdiv_one ops (int r + k))) sc"
  let ?en = "AList.update (entry_id e) e en"
  have nz: "int r + k \<noteq> 0" using assms by simp
  have step: "rrf_pass ops k r (x # rs) (sc, en) = rrf_pass ops k (Suc r) rs (?sc, ?en)"
    using nz by (simp add: x Let_def)
  from Cons.IH [of "Suc r" ?sc ?en] obtain sc' en' where
    r: "rrf_pass ops k (Suc r) rs (?sc, ?en) = Inr (sc', en')"
    and k1: "map fst sc' = first_seen (map fst ?sc) (ids rs)"
    and k2: "map fst en' = first_seen (map fst ?en) (ids rs)"
    and s: "\<forall>i. score_get ops sc' i = pass_score ops k (Suc r) i rs (score_get ops ?sc i)"
    and en: "\<forall>i e'. map_of en' i = Some e' \<longrightarrow>
          map_of ?en i = Some e' \<or> (e' \<in> fst ` set rs \<and> entry_id e' = i)"
    by blast
  have a: "map fst sc' = first_seen (map fst sc) (ids (x # rs))"
    unfolding k1 x ids_Cons by (simp add: keys_update)
  have b: "map fst en' = first_seen (map fst en) (ids (x # rs))"
    unfolding k2 x ids_Cons by (simp add: keys_update)
  have c: "\<forall>i. score_get ops sc' i = pass_score ops k r i (x # rs) (score_get ops sc i)"
    using s by (simp add: x score_get_update)
  have d: "\<forall>i e'. map_of en' i = Some e' \<longrightarrow>
          map_of en i = Some e' \<or> (e' \<in> fst ` set (x # rs) \<and> entry_id e' = i)"
  proof (intro allI impI)
    fix i e' assume "map_of en' i = Some e'"
    with en have "map_of ?en i = Some e' \<or> (e' \<in> fst ` set rs \<and> entry_id e' = i)" by blast
    then show "map_of en i = Some e' \<or> (e' \<in> fst ` set (x # rs) \<and> entry_id e' = i)"
      by (auto simp: update_conv' x split: if_splits)
  qed
  show ?case using step r a b c d by simp
qed

lemma rank_from_None: "rank_from n i xs = None \<longleftrightarrow> i \<notin> set xs"
  by (induction xs arbitrary: n) auto

lemma rrf_contrib_notin: "i \<notin> set (ids rs) \<Longrightarrow> rrf_contrib k r i rs = 0"
  by (induction rs arbitrary: r) (auto simp: ids_def)

lemma rrf_contrib_distinct:
  "distinct (ids rs) \<Longrightarrow>
   rrf_contrib k r i rs =
     (case rank_from r i (ids rs) of None \<Rightarrow> 0 | Some n \<Rightarrow> 1 / of_int (int n + k))"
proof (induction rs arbitrary: r)
  case Nil
  then show ?case by (simp add: ids_def)
next
  case (Cons x rs)
  obtain e raw where x: "x = (e, raw)" by (cases x)
  from Cons.prems have d: "distinct (ids rs)" and n: "entry_id e \<notin> set (ids rs)"
    by (simp_all add: x ids_Cons)
  show ?case
  proof (cases "entry_id e = i")
    case True
    with n have "rrf_contrib k (Suc r) i rs = 0" by (simp add: rrf_contrib_notin)
    with True show ?thesis by (simp add: x ids_Cons)
  next
    case False
    then show ?thesis using Cons.IH [OF d, of "Suc r"] by (simp add: x ids_Cons)
  qed
qed

lemma fused_score_spec:
  "distinct (ids r1) \<Longrightarrow> distinct (ids r2) \<Longrightarrow> fused_score k r1 r2 i = spec_fused_score k r1 r2 i"
  by (simp add: fused_score_def spec_fused_score_def spec_rank_term_def rrf_contrib_distinct)

text \<open>Without rounding the passes add up the contributions.\<close>

lemma exact_simps:
  "fdiv_one exact n = 1 / of_int n" "fadd exact a b = a + b" "fzero exact = 0"
  by (simp_all add: exact_def)

lemma pass_score_exact: "pass_score exact k r i rs acc = acc + rrf_contrib k r i rs"
  by (induction rs arbitrary: r acc) (auto simp: exact_simps)

lemma computed_score_exact: "computed_score exact k r1 r2 = fused_score k r1 r2"
  by (intro ext) (simp add: computed_score_def fused_score_def pass_score_exact exact_simps)

lemma rrf_results_map:
  assumes "set js \<subseteq> set (map fst sc)" and "map fst en = map fst sc"
  shows "rrf_results sc en r1 r2 js =
     Inr (map (\<lambda>i. (the (map_of en i), score_get ops sc i, rrf_source r1 r2 i)) js)"
  using assms(1)
proof (induction js)
  case Nil
  then show ?case by simp
next
  case (Cons j js)
  then have j: "j \<in> set (map fst sc)" and js: "set js \<subseteq> set (map fst sc)" by simp_all
  from j obtain s where s: "map_of sc j = Some s"
    by (metis map_of_eq_None_iff not_Some_eq set_map)
  from j assms(2) have "j \<in> set (map fst en)" by simp
  then obtain e where e: "map_of en j = Some e"
    by (metis map_of_eq_None_iff not_Some_eq set_map)
  show ?case using Cons.IH [OF js] s e by (simp add: score_get_def)
qed

lemma out_ids_fuse_rows:
  assumes "\<And>i. i \<in> set js \<Longrightarrow> entry_id (the (map_of en i)) = i"
  shows "out_ids (map (fuse_row sf r1 r2 en) js) = js"
  using assms by (induction js) (simp_all add: out_ids_def fuse_row_def)

lemma out_scores_fuse_rows:
  "out_scores (map (fuse_row sf r1 r2 en) js) = map sf js"
  by (induction js) (simp_all add: out_scores_def fuse_row_def)

lemma filter_fuse_rows:
  "filter (\<lambda>(e, s', src). s' = s) (map (fuse_row sf r1 r2 en) js)
     = map (fuse_row sf r1 r2 en) (filter (\<lambda>i. sf i = s) js)"
  by (induction js) (simp_all add: fuse_row_def)

text \<open>
  The sort of \<open>sorted_ids\<close> puts the keys in descending order of their scores and keeps
  the keys of one score in the order they had.
\<close>

lemma reverse_sort_desc:
  "sorted_wrt (\<ge>) (map f (rev (sort_key f (rev xs))))"
proof -
  have "sorted (map f (sort_key f (rev xs)))" by (rule sorted_sort_key)
  then have "sorted_wrt (\<ge>) (rev (map f (sort_key f (rev xs))))"
    by (simp add: sorted_wrt_rev)
  then show ?thesis by (simp only: rev_map)
qed

lemma reverse_sort_stable:
  "filter (\<lambda>x. f x = s) (rev (sort_key f (rev xs))) = filter (\<lambda>x. f x = s) xs"
proof -
  have "filter (\<lambda>x. f x = s) (rev (sort_key f (rev xs)))
          = rev (filter (\<lambda>x. f x = s) (sort_key f (rev xs)))"
    by (simp only: rev_filter)
  also have "\<dots> = rev (filter (\<lambda>x. f x = s) (rev xs))"
    by (simp only: sort_key_stable)
  also have "\<dots> = filter (\<lambda>x. f x = s) xs"
    by (simp only: rev_filter rev_rev_ident)
  finally show ?thesis .
qed

lemma rrf_fused:
  assumes "0 < k"
  shows "\<exists>en. reciprocal_rank_fusion_with ops k r1 r2 =
            Inr (map (fuse_row (computed_score ops k r1 r2) r1 r2 en)
                  (rev (sort_key (computed_score ops k r1 r2) (rev (insertion_order r1 r2)))))
     \<and> map fst en = insertion_order r1 r2
     \<and> (\<forall>i e. map_of en i = Some e \<longrightarrow> e \<in> fst ` set (r1 @ r2) \<and> entry_id e = i)"
proof -
  from rrf_pass_props [OF assms, of ops 0 r1 "[]" "[]"] obtain sc1 en1 where
    p1: "rrf_pass ops k 0 r1 ([], []) = Inr (sc1, en1)"
    and k1: "map fst sc1 = first_seen [] (ids r1)" "map fst en1 = first_seen [] (ids r1)"
    and s1: "\<forall>i. score_get ops sc1 i = pass_score ops k 0 i r1 (fzero ops)"
    and e1: "\<forall>i e. map_of en1 i = Some e \<longrightarrow> e \<in> fst ` set r1 \<and> entry_id e = i"
    by (auto simp: score_get_def)
  from rrf_pass_props [OF assms, of ops 0 r2 sc1 en1] obtain sc en where
    p2: "rrf_pass ops k 0 r2 (sc1, en1) = Inr (sc, en)"
    and k2: "map fst sc = first_seen (map fst sc1) (ids r2)"
            "map fst en = first_seen (map fst en1) (ids r2)"
    and s2: "\<forall>i. score_get ops sc i = pass_score ops k 0 i r2 (score_get ops sc1 i)"
    and e2: "\<forall>i e. map_of en i = Some e \<longrightarrow>
               map_of en1 i = Some e \<or> (e \<in> fst ` set r2 \<and> entry_id e = i)"
    by (elim exE conjE)
  have ks: "map fst sc = insertion_order r1 r2"
    by (simp add: k2 k1 insertion_order_def first_seen_append)
  have ke: "map fst en = insertion_order r1 r2"
    by (simp add: k2 k1 insertion_order_def first_seen_append)
  have sg: "score_get ops sc = computed_score ops k r1 r2"
    using s1 s2 by (auto simp: computed_score_def)
  have so: "sorted_ids ops sc =
      rev (sort_key (computed_score ops k r1 r2) (rev (insertion_order r1 r2)))"
    by (simp add: sorted_ids_def sg ks)
  have sub: "set (sorted_ids ops sc) \<subseteq> set (map fst sc)" by (simp add: sorted_ids_def)
  have "reciprocal_rank_fusion_with ops k r1 r2 = rrf_results sc en r1 r2 (sorted_ids ops sc)"
    by (simp add: reciprocal_rank_fusion_with_def p1 p2)
  also have "\<dots> = Inr (map (\<lambda>i. (the (map_of en i), score_get ops sc i, rrf_source r1 r2 i))
                      (sorted_ids ops sc))"
    by (rule rrf_results_map [OF sub]) (simp add: ks ke)
  finally have r: "reciprocal_rank_fusion_with ops k r1 r2 =
            Inr (map (fuse_row (computed_score ops k r1 r2) r1 r2 en)
                  (rev (sort_key (computed_score ops k r1 r2) (rev (insertion_order r1 r2)))))"
    by (simp add: sg so fuse_row_def)
  have ee: "\<forall>i e. map_of en i = Some e \<longrightarrow> e \<in> fst ` set (r1 @ r2) \<and> entry_id e = i"
    using e1 e2 by (simp add: image_Un) blast
  show ?thesis
    by (intro exI [of _ en] conjI r ke ee)
qed

lemma insertion_order_props:
  "distinct (insertion_order r1 r2)" "set (insertion_order r1 r2) = set (ids r1) \<union> set (ids r2)"
  by (simp_all add: insertion_order_def first_seen_distinct first_seen_set)

lemma rrf_out_with:
  assumes "0 < k"
  shows "\<exists>out. reciprocal_rank_fusion_with ops k r1 r2 = Inr out
     \<and> out_ids out = rev (sort_key (computed_score ops k r1 r2) (rev (insertion_order r1 r2)))
     \<and> out_scores out = map (computed_score ops k r1 r2) (out_ids out)
     \<and> (\<forall>s. out_ids (filter (\<lambda>(e, s', src). s' = s) out) =
              filter (\<lambda>i. computed_score ops k r1 r2 i = s) (insertion_order r1 r2))"
proof -
  define f where "f = computed_score ops k r1 r2"
  define io where "io = insertion_order r1 r2"
  from rrf_fused [OF assms, of ops r1 r2, folded f_def io_def] obtain en where
    r: "reciprocal_rank_fusion_with ops k r1 r2
          = Inr (map (fuse_row f r1 r2 en) (rev (sort_key f (rev io))))"
    and ke: "map fst en = io"
    and ee: "\<forall>i e. map_of en i = Some e \<longrightarrow> e \<in> fst ` set (r1 @ r2) \<and> entry_id e = i"
    by (elim exE conjE)
  define out where "out = map (fuse_row f r1 r2 en) (rev (sort_key f (rev io)))"
  have idg: "entry_id (the (map_of en i)) = i" if "i \<in> set io" for i
  proof -
    from that ke have "i \<in> set (map fst en)" by simp
    then obtain e where "map_of en i = Some e"
      by (metis map_of_eq_None_iff not_Some_eq set_map)
    with ee show ?thesis by auto
  qed
  have 1: "out_ids out = rev (sort_key f (rev io))"
    unfolding out_def by (rule out_ids_fuse_rows) (simp add: idg)
  have 2: "out_scores out = map f (out_ids out)"
    unfolding 1 unfolding out_def by (rule out_scores_fuse_rows)
  have 3: "out_ids (filter (\<lambda>(e, s', src). s' = s) out) = filter (\<lambda>i. f i = s) io" for s
  proof -
    have "filter (\<lambda>(e, s', src). s' = s) out
            = map (fuse_row f r1 r2 en) (filter (\<lambda>i. f i = s) (rev (sort_key f (rev io))))"
      unfolding out_def filter_fuse_rows ..
    also have "\<dots> = map (fuse_row f r1 r2 en) (filter (\<lambda>i. f i = s) io)"
      by (simp only: reverse_sort_stable)
    finally have "out_ids (filter (\<lambda>(e, s', src). s' = s) out)
            = out_ids (map (fuse_row f r1 r2 en) (filter (\<lambda>i. f i = s) io))" by simp
    also have "\<dots> = filter (\<lambda>i. f i = s) io"
      by (rule out_ids_fuse_rows) (simp add: idg)
    finally show ?thesis .
  qed
  have r': "reciprocal_rank_fusion_with ops k r1 r2 = Inr out" unfolding out_def by (rule r)
  show ?thesis
    apply (rule exI [of _ out])
    using r' 1 2 3 unfolding f_def io_def by (simp only: simp_thms)
qed

lemma rrf_out:
  assumes "0 < k"
  shows "\<exists>out. reciprocal_rank_fusion k r1 r2 = Inr out
     \<and> out_ids out = rev (sort_key (fused_score k r1 r2) (rev (insertion_order r1 r2)))
     \<and> out_scores out = map (fused_score k r1 r2) (out_ids out)"
proof -
  from rrf_out_with [OF assms, of exact r1 r2] obtain out where
    r: "reciprocal_rank_fusion_with exact k r1 r2 = Inr out"
    and i: "out_ids out
              = rev (sort_key (computed_score exact k r1 r2) (rev (insertion_order r1 r2)))"
    and s: "out_scores out = map (computed_score exact k r1 r2) (out_ids out)"
    by (elim exE conjE)
  show ?thesis
    by (intro exI [of _ out] conjI)
       (simp_all only: reciprocal_rank_fusion_def r i [unfolded computed_score_exact]
          s [unfolded computed_score_exact])
qed

lemma entry_ids [simp]: "entry_id (mk_entry i t) = i"
  by (simp add: mk_entry_def)

lemma pass1: "rrf_pass exact 60 0 lexical_ABC ([], []) =
   Inr ([(''A'', 1/60), (''B'', 1/61), (''C'', 1/62)],
        [(''A'', mk_entry ''A'' 1), (''B'', mk_entry ''B'' 2), (''C'', mk_entry ''C'' 3)])"
  by (simp add: lexical_ABC_def score_get_def exact_simps Let_def)

lemma pass2: "rrf_pass exact 60 0 semantic_BCA ([(''A'', 1/60), (''B'', 1/61), (''C'', 1/62)],
        [(''A'', mk_entry ''A'' 1), (''B'', mk_entry ''B'' 2), (''C'', mk_entry ''C'' 3)]) =
   Inr ([(''A'', 1/60 + 1/62), (''B'', 1/61 + 1/60), (''C'', 1/62 + 1/61)],
        [(''A'', mk_entry ''A'' 1), (''B'', mk_entry ''B'' 2), (''C'', mk_entry ''C'' 3)])"
  by (simp add: semantic_BCA_def score_get_def exact_simps Let_def)

lemma srt: "sorted_ids exact [(''A'', 1/60 + 1/62), (''B'', 1/61 + 1/60), (''C'', 1/62 + 1/61)]
    = [''B'', ''A'', ''C'']"
  by (simp add: sorted_ids_def score_get_def)

lemma rrf_example:
  "reciprocal_rank_fusion 60 lexical_ABC semantic_BCA =
     Inr [(mk_entry ''B'' 2, 1/61 + 1/60, ''hybrid''),
          (mk_entry ''A'' 1, 1/60 + 1/62, ''hybrid''),
          (mk_entry ''C'' 3, 1/62 + 1/61, ''hybrid'')]"
  unfolding reciprocal_rank_fusion_def reciprocal_rank_fusion_with_def
    pass1 sum.case pass2 prod.case srt
  by (simp add: rrf_source_def ids_def lexical_ABC_def semantic_BCA_def)

lemma rrf_tie_example:
  "reciprocal_rank_fusion 60 lexical_old semantic_new =
     Inr [(mk_entry ''A'' 1, 1/60, ''fts''), (mk_entry ''B'' 2, 1/60, ''semantic'')]"
  by (simp add: reciprocal_rank_fusion_def reciprocal_rank_fusion_with_def lexical_old_def
      semantic_new_def score_get_def sorted_ids_def rrf_source_def ids_def exact_simps Let_def)

text \<open>
  C2. With a positive constant \<open>k\<close> and no id twice in one list, fusion returns every id
  of the two lists once, each with the score \<open>1 / (rank + k)\<close> summed over the lists that
  hold it (rank from 0, nothing from a list that lacks it), in descending order of score.
  For the lexical ranks A, B, C and the semantic ranks B, C, A with \<open>k = 60\<close> the scores
  are \<open>1/60 + 1/62\<close> for A, \<open>1/61 + 1/60\<close> for B and \<open>1/62 + 1/61\<close> for C, and the
  output order is B, A, C.
\<close>

theorem rrf_scores_exact:
  assumes "0 < k" and "distinct (ids results1)" and "distinct (ids results2)"
  shows "(\<exists>out. reciprocal_rank_fusion k results1 results2 = Inr out
           \<and> distinct (out_ids out)
           \<and> set (out_ids out) = set (ids results1) \<union> set (ids results2)
           \<and> out_scores out = map (spec_fused_score k results1 results2) (out_ids out)
           \<and> sorted_wrt (\<ge>) (out_scores out))
       \<and> reciprocal_rank_fusion 60 lexical_ABC semantic_BCA =
            Inr [(mk_entry ''B'' 2, 1/61 + 1/60, ''hybrid''),
                 (mk_entry ''A'' 1, 1/60 + 1/62, ''hybrid''),
                 (mk_entry ''C'' 3, 1/62 + 1/61, ''hybrid'')]"
proof -
  from rrf_out [OF assms(1), of results1 results2] obtain out where
    r: "reciprocal_rank_fusion k results1 results2 = Inr out"
    and i: "out_ids out = rev (sort_key (fused_score k results1 results2)
                            (rev (insertion_order results1 results2)))"
    and s: "out_scores out = map (fused_score k results1 results2) (out_ids out)"
    by (elim exE conjE)
  have fs: "fused_score k results1 results2 = spec_fused_score k results1 results2"
    using fused_score_spec [OF assms(2) assms(3)] by (intro ext)
  have 1: "distinct (out_ids out)"
    unfolding i by (simp add: insertion_order_props)
  have 2: "set (out_ids out) = set (ids results1) \<union> set (ids results2)"
    unfolding i by (simp add: insertion_order_props)
  have 3: "out_scores out = map (spec_fused_score k results1 results2) (out_ids out)"
    using s unfolding fs .
  have 4: "sorted_wrt (\<ge>) (out_scores out)"
    unfolding s i by (rule reverse_sort_desc)
  from r 1 2 3 4 rrf_example show ?thesis by blast
qed

theorem rrf_scores_exact_witness:
  "(0::int) < 60 \<and> distinct (ids lexical_ABC) \<and> distinct (ids semantic_BCA)
   \<and> reciprocal_rank_fusion 60 lexical_ABC semantic_BCA =
        Inr [(mk_entry ''B'' 2, 1/61 + 1/60, ''hybrid''),
             (mk_entry ''A'' 1, 1/60 + 1/62, ''hybrid''),
             (mk_entry ''C'' 3, 1/62 + 1/61, ''hybrid'')]
   \<and> spec_fused_score 60 lexical_ABC semantic_BCA ''A'' = 1/60 + 1/62
   \<and> spec_fused_score 60 lexical_ABC semantic_BCA ''B'' = 1/61 + 1/60
   \<and> spec_fused_score 60 lexical_ABC semantic_BCA ''C'' = 1/62 + 1/61"
proof -
  have d1: "distinct (ids lexical_ABC)" by (simp add: ids_def lexical_ABC_def)
  have d2: "distinct (ids semantic_BCA)" by (simp add: ids_def semantic_BCA_def)
  have k: "(0::int) < 60" by simp
  have sp: "spec_fused_score 60 lexical_ABC semantic_BCA ''A'' = 1/60 + 1/62"
    "spec_fused_score 60 lexical_ABC semantic_BCA ''B'' = 1/61 + 1/60"
    "spec_fused_score 60 lexical_ABC semantic_BCA ''C'' = 1/62 + 1/61"
    by (simp_all add: spec_fused_score_def spec_rank_term_def ids_def lexical_ABC_def
          semantic_BCA_def)
  from rrf_scores_exact [OF k d1 d2] d1 d2 sp show ?thesis by simp
qed

lemma rrf_rounding_example:
  "reciprocal_rank_fusion_with tenths 2 lexical_PQX semantic_YRX =
     Inr [(mk_entry ''P'' 1, 5, ''fts''), (mk_entry ''Y'' 4, 5, ''semantic''),
          (mk_entry ''X'' 3, 4, ''hybrid''), (mk_entry ''Q'' 2, 3, ''fts''),
          (mk_entry ''R'' 5, 3, ''semantic'')]"
  by (simp add: reciprocal_rank_fusion_with_def lexical_PQX_def semantic_YRX_def tenths_def
      score_get_def sorted_ids_def rrf_source_def ids_def Let_def)

lemma rrf_no_rounding_example:
  "reciprocal_rank_fusion_with exact 2 lexical_PQX semantic_YRX =
     Inr [(mk_entry ''P'' 1, 1/2, ''fts''), (mk_entry ''X'' 3, 1/2, ''hybrid''),
          (mk_entry ''Y'' 4, 1/2, ''semantic''), (mk_entry ''Q'' 2, 1/3, ''fts''),
          (mk_entry ''R'' 5, 1/3, ''semantic'')]"
  by (simp add: reciprocal_rank_fusion_with_def lexical_PQX_def semantic_YRX_def exact_simps
      score_get_def sorted_ids_def rrf_source_def ids_def Let_def)

text \<open>
  C7, as the code has it. Whatever the float operations compute, with a positive constant
  \<open>k\<close> the fused output is in descending order of the scores the code computed, every
  entry carries the score the two passes computed for its id, and the entries of one
  computed score stand in the order in which their ids entered the dict of scores: the
  ids of the lexical list in its order, then the ids only the semantic list holds, in its
  order. A tie is an equality of computed scores, not of exact sums: in tenths, with
  \<open>k = 2\<close>, Y comes before X, whose exact score is the same and which entered the dict
  first. Timestamps play no part.
\<close>

theorem rrf_ties_keep_insertion_order:
  fixes ops :: "('s::linorder) float_ops"
  assumes "0 < k"
  shows "\<exists>out. reciprocal_rank_fusion_with ops k results1 results2 = Inr out
     \<and> sorted_wrt (\<ge>) (out_scores out)
     \<and> out_scores out = map (computed_score ops k results1 results2) (out_ids out)
     \<and> (\<forall>s. out_ids (filter (\<lambda>(e, s', src). s' = s) out) =
              filter (\<lambda>i. computed_score ops k results1 results2 i = s)
                (insertion_order results1 results2))"
proof -
  from rrf_out_with [OF assms, of ops results1 results2] obtain out where
    r: "reciprocal_rank_fusion_with ops k results1 results2 = Inr out"
    and i: "out_ids out = rev (sort_key (computed_score ops k results1 results2)
                            (rev (insertion_order results1 results2)))"
    and s: "out_scores out = map (computed_score ops k results1 results2) (out_ids out)"
    and t: "\<forall>s. out_ids (filter (\<lambda>(e, s', src). s' = s) out) =
              filter (\<lambda>i. computed_score ops k results1 results2 i = s)
                (insertion_order results1 results2)"
    by (elim exE conjE)
  have 4: "sorted_wrt (\<ge>) (out_scores out)"
    unfolding s i by (rule reverse_sort_desc)
  show ?thesis by (intro exI [of _ out] conjI r 4 s t)
qed

theorem rrf_ties_keep_insertion_order_witness:
  "(0::int) < 60
   \<and> reciprocal_rank_fusion_with exact 60 lexical_old semantic_new =
        Inr [(mk_entry ''A'' 1, 1/60, ''fts''), (mk_entry ''B'' 2, 1/60, ''semantic'')]
   \<and> insertion_order lexical_old semantic_new = [''A'', ''B'']
   \<and> map (computed_score exact 60 lexical_old semantic_new) [''A'', ''B''] = [1/60, 1/60]
   \<and> out_ids (filter (\<lambda>(e, s', src). s' = 1/60)
        [(mk_entry ''A'' 1, 1/60 :: rat, ''fts''), (mk_entry ''B'' 2, 1/60, ''semantic'')])
       = [''A'', ''B'']
   \<and> (0::int) < 2
   \<and> reciprocal_rank_fusion_with tenths 2 lexical_PQX semantic_YRX =
        Inr [(mk_entry ''P'' 1, 5, ''fts''), (mk_entry ''Y'' 4, 5, ''semantic''),
             (mk_entry ''X'' 3, 4, ''hybrid''), (mk_entry ''Q'' 2, 3, ''fts''),
             (mk_entry ''R'' 5, 3, ''semantic'')]
   \<and> insertion_order lexical_PQX semantic_YRX = [''P'', ''Q'', ''X'', ''Y'', ''R'']
   \<and> map (computed_score tenths 2 lexical_PQX semantic_YRX) [''P'', ''Q'', ''X'', ''Y'', ''R'']
       = [5, 3, 4, 5, 3]
   \<and> out_ids (filter (\<lambda>(e, s', src). s' = 5)
        [(mk_entry ''P'' 1, 5 :: int, ''fts''), (mk_entry ''Y'' 4, 5, ''semantic''),
         (mk_entry ''X'' 3, 4, ''hybrid''), (mk_entry ''Q'' 2, 3, ''fts''),
         (mk_entry ''R'' 5, 3, ''semantic'')])
       = [''P'', ''Y'']
   \<and> reciprocal_rank_fusion_with exact 2 lexical_PQX semantic_YRX =
        Inr [(mk_entry ''P'' 1, 1/2, ''fts''), (mk_entry ''X'' 3, 1/2, ''hybrid''),
             (mk_entry ''Y'' 4, 1/2, ''semantic''), (mk_entry ''Q'' 2, 1/3, ''fts''),
             (mk_entry ''R'' 5, 1/3, ''semantic'')]"
proof -
  have k: "(0::int) < 60" by simp
  have k': "(0::int) < 2" by simp
  have ex: "reciprocal_rank_fusion_with exact 60 lexical_old semantic_new =
        Inr [(mk_entry ''A'' 1, 1/60, ''fts''), (mk_entry ''B'' 2, 1/60, ''semantic'')]"
    using rrf_tie_example unfolding reciprocal_rank_fusion_def .
  have io: "insertion_order lexical_old semantic_new = [''A'', ''B'']"
    by (simp add: insertion_order_def ids_def lexical_old_def semantic_new_def)
  have fs: "computed_score exact 60 lexical_old semantic_new ''A'' = 1/60"
    "computed_score exact 60 lexical_old semantic_new ''B'' = 1/60"
    by (simp_all add: computed_score_def lexical_old_def semantic_new_def exact_simps)
  have m: "map (computed_score exact 60 lexical_old semantic_new) [''A'', ''B''] = [1/60, 1/60]"
    by (simp add: fs)
  from rrf_ties_keep_insertion_order [OF k, of exact lexical_old semantic_new] obtain out where
    r: "reciprocal_rank_fusion_with exact 60 lexical_old semantic_new = Inr out"
    and t: "\<forall>s. out_ids (filter (\<lambda>(e, s', src). s' = s) out) =
              filter (\<lambda>i. computed_score exact 60 lexical_old semantic_new i = s)
                (insertion_order lexical_old semantic_new)"
    by (elim exE conjE)
  from r have out: "out = [(mk_entry ''A'' 1, 1/60, ''fts''), (mk_entry ''B'' 2, 1/60, ''semantic'')]"
    unfolding ex by simp
  have "out_ids (filter (\<lambda>(e, s', src). s' = 1/60) out) =
          filter (\<lambda>i. computed_score exact 60 lexical_old semantic_new i = 1/60) [''A'', ''B'']"
    using t [rule_format, of "1/60"] unfolding io .
  then have f: "out_ids (filter (\<lambda>(e, s', src). s' = 1/60) out) = [''A'', ''B'']"
    by (simp add: fs)
  have io': "insertion_order lexical_PQX semantic_YRX = [''P'', ''Q'', ''X'', ''Y'', ''R'']"
    by (simp add: insertion_order_def ids_def lexical_PQX_def semantic_YRX_def)
  have fs': "computed_score tenths 2 lexical_PQX semantic_YRX ''P'' = 5"
    "computed_score tenths 2 lexical_PQX semantic_YRX ''Q'' = 3"
    "computed_score tenths 2 lexical_PQX semantic_YRX ''X'' = 4"
    "computed_score tenths 2 lexical_PQX semantic_YRX ''Y'' = 5"
    "computed_score tenths 2 lexical_PQX semantic_YRX ''R'' = 3"
    by (simp_all add: computed_score_def lexical_PQX_def semantic_YRX_def tenths_def)
  have m': "map (computed_score tenths 2 lexical_PQX semantic_YRX)
              [''P'', ''Q'', ''X'', ''Y'', ''R''] = [5, 3, 4, 5, 3]"
    by (simp add: fs')
  from rrf_ties_keep_insertion_order [OF k', of tenths lexical_PQX semantic_YRX]
  obtain out' where
    r': "reciprocal_rank_fusion_with tenths 2 lexical_PQX semantic_YRX = Inr out'"
    and t': "\<forall>s. out_ids (filter (\<lambda>(e, s', src). s' = s) out') =
              filter (\<lambda>i. computed_score tenths 2 lexical_PQX semantic_YRX i = s)
                (insertion_order lexical_PQX semantic_YRX)"
    by (elim exE conjE)
  from r' have out': "out' =
         [(mk_entry ''P'' 1, 5, ''fts''), (mk_entry ''Y'' 4, 5, ''semantic''),
          (mk_entry ''X'' 3, 4, ''hybrid''), (mk_entry ''Q'' 2, 3, ''fts''),
          (mk_entry ''R'' 5, 3, ''semantic'')]"
    unfolding rrf_rounding_example by simp
  have "out_ids (filter (\<lambda>(e, s', src). s' = 5) out') =
          filter (\<lambda>i. computed_score tenths 2 lexical_PQX semantic_YRX i = 5)
            [''P'', ''Q'', ''X'', ''Y'', ''R'']"
    using t' [rule_format, of 5] unfolding io' .
  then have f': "out_ids (filter (\<lambda>(e, s', src). s' = 5) out') = [''P'', ''Y'']"
    by (simp add: fs')
  show ?thesis
    by (intro conjI k ex io m f [unfolded out] k' rrf_rounding_example io' m' f' [unfolded out']
          rrf_no_rounding_example)
qed

text \<open>
  C7 as stated fails: an older entry found only by the lexical search and a newer one found
  only by the semantic search, each at rank 0, have equal fused scores, and the older one
  comes first.
\<close>

theorem rrf_tie_older_first_counterexample:
  "reciprocal_rank_fusion 60 lexical_old semantic_new =
     Inr [(mk_entry ''A'' 1, 1/60, ''fts''), (mk_entry ''B'' 2, 1/60, ''semantic'')]
   \<and> \<not> ties_by_recency [(mk_entry ''A'' 1, 1/60, ''fts''), (mk_entry ''B'' 2, 1/60, ''semantic'')]"
  using rrf_tie_example by (simp add: ties_by_recency_def mk_entry_def)

section \<open>Recall and delete\<close>


lemma recall_total: "\<exists>results. fst (recall env query k mt g) = Inr results"
  by (simp add: recall_def split: prod.splits sum.splits)

lemma lexical_failed_empty: "lexical_failed env query mt g \<Longrightarrow> fts_search env query 20 mt g = []"
  by (auto simp: lexical_failed_def fts_search_def split: option.splits sum.splits)

lemma semantic_failed_empty:
  "semantic_failed env query mt g \<Longrightarrow> fst (semantic_results env query mt g) = []"
  by (auto simp: semantic_failed_def semantic_results_def semantic_search_def Let_def
           split: option.splits sum.splits Result.splits prod.splits)

lemma py_take_map: "py_take k (map f xs) = map f (py_take k xs)"
  by (simp add: py_take_def take_map)

lemma recall_no_semantic:
  assumes "initialized g" and "fst (semantic_results env query mt g) = []"
  shows "fst (recall env query k mt g) = Inr (lexical_only (py_take k (fts_search env query 20 mt g)))"
  using assms
  by (simp add: recall_def recall_body_def Let_def lexical_only_def py_take_map to_result_def
        split_beta comp_def)

lemma semantic_results_rrf_k: "rrf_k (snd (semantic_results env query mt g)) = rrf_k g"
  by (simp add: semantic_results_def semantic_search_def Let_def
        split: option.splits sum.splits Result.splits prod.splits)

lemma recall_lexical_down:
  assumes "initialized g" and "0 < rrf_k g" and "fst (semantic_results env query mt g) \<noteq> []"
  shows "\<exists>out. reciprocal_rank_fusion (rrf_k g) (fts_search env query 20 mt g)
                 (fst (semantic_results env query mt g)) = Inr out
     \<and> fst (recall env query k mt g) = Inr (map to_result (py_take k out))"
proof -
  from rrf_out [OF assms(2)] obtain out where
    o: "reciprocal_rank_fusion (rrf_k g) (fts_search env query 20 mt g)
          (fst (semantic_results env query mt g)) = Inr out"
    by blast
  have "fst (recall env query k mt g) = Inr (map to_result (py_take k out))"
    using assms(1,3) o semantic_results_rrf_k [of env query mt g]
    by (simp add: recall_def recall_body_def Let_def split_beta)
  with o show ?thesis by blast
qed

lemma lexical_only_sources: "map source (lexical_only rs) = replicate (length rs) ''fts''"
  by (induction rs) (auto simp: lexical_only_def)

lemma graph_ab_simps:
  "initialized graph_ab" "conn graph_ab = Some [mk_row ''a'' 1, mk_row ''b'' 2]"
  "\<not> qdrant_available graph_ab" "rrf_k graph_ab = 60"
  "embedding_engine graph_ab = Some (new_engine ''m'' 1 2)"
  by (simp_all add: graph_ab_def)

lemma graph_q_simps:
  "initialized graph_q" "conn graph_q = Some [mk_row ''a'' 1, mk_row ''b'' 2]"
  "qdrant_available graph_q" "rrf_k graph_q = 60"
  "embedding_engine graph_q = Some (new_engine ''m'' 1 2)" "points graph_q = []"
  by (simp_all add: graph_q_def graph_ab_def)

lemma fts_lexical_ab:
  "fts_search env_lexical ''q'' 20 None graph_ab =
     [(row_to_entry (mk_row ''a'' 1), 1/2), (row_to_entry (mk_row ''b'' 2), 1/4)]"
  by (simp add: fts_search_def graph_ab_simps env_lexical_def)

lemma sem_lexical_ab: "fst (semantic_results env_lexical ''q'' None graph_ab) = []"
  by (simp add: semantic_results_def graph_ab_simps)

text \<open>
  C6. On an initialised graph, whenever the semantic result list is empty, recall skips
  the fusion and passes the lexical results through: what it returns is the lexical list
  cut to the requested \<open>k\<close> as every recall is (the slice \<open>[:k]\<close>), with the same
  entries, the same order and the same scores, and every returned result carries the
  lexical source tag, the string \<open>fts\<close>.
\<close>

theorem recall_lexical_passthrough:
  assumes "initialized g" and "fst (semantic_results env query mt g) = []"
  shows "fst (recall env query k mt g) = Inr (lexical_only (py_take k (fts_search env query 20 mt g)))
       \<and> map source (lexical_only (py_take k (fts_search env query 20 mt g))) =
           replicate (length (py_take k (fts_search env query 20 mt g))) ''fts''"
  using recall_no_semantic [OF assms] lexical_only_sources by simp

theorem recall_lexical_passthrough_witness:
  "initialized graph_ab \<and> fst (semantic_results env_lexical ''q'' None graph_ab) = []
   \<and> fst (recall env_lexical ''q'' 1 None graph_ab) =
       Inr [\<lparr> entry = row_to_entry (mk_row ''a'' 1), score = 1/2, source = ''fts'' \<rparr>]"
  using recall_lexical_passthrough [OF graph_ab_simps(1) sem_lexical_ab, of 1]
  by (simp add: graph_ab_simps sem_lexical_ab fts_lexical_ab py_take_def lexical_only_def)

text \<open>
  C8. Recall always returns a list, never an error. When the lexical search and the
  semantic side both fail the list is empty; when the semantic side fails (no index, a
  failed query embedding, a failed search) the list is the first \<open>k\<close> lexical results;
  when the lexical search fails and the semantic side has results, the list is the first
  \<open>k\<close> of their fusion with the empty lexical list.
\<close>

theorem recall_never_raises:
  "(\<exists>results. fst (recall env query k mt g) = Inr results)
   \<and> (lexical_failed env query mt g \<and> semantic_failed env query mt g
        \<longrightarrow> fst (recall env query k mt g) = Inr [])
   \<and> (initialized g \<and> semantic_failed env query mt g
        \<longrightarrow> fst (recall env query k mt g)
              = Inr (lexical_only (py_take k (fts_search env query 20 mt g))))
   \<and> (initialized g \<and> lexical_failed env query mt g \<and> 0 < rrf_k g
        \<and> fst (semantic_results env query mt g) \<noteq> []
        \<longrightarrow> (\<exists>out. reciprocal_rank_fusion (rrf_k g) [] (fst (semantic_results env query mt g))
                      = Inr out
                  \<and> fst (recall env query k mt g) = Inr (map to_result (py_take k out))))"
proof -
  have 1: "\<exists>results. fst (recall env query k mt g) = Inr results" by (rule recall_total)
  have 2: "fst (recall env query k mt g) = Inr []"
    if "lexical_failed env query mt g" "semantic_failed env query mt g"
  proof (cases "initialized g")
    case True
    show ?thesis
      using recall_no_semantic [OF True semantic_failed_empty [OF that(2)], of k]
      by (simp add: lexical_failed_empty [OF that(1)] py_take_def lexical_only_def)
  next
    case False
    then show ?thesis by (simp add: recall_def)
  qed
  have 3: "fst (recall env query k mt g)
              = Inr (lexical_only (py_take k (fts_search env query 20 mt g)))"
    if "initialized g" "semantic_failed env query mt g"
    by (rule recall_no_semantic [OF that(1) semantic_failed_empty [OF that(2)]])
  have 4: "\<exists>out. reciprocal_rank_fusion (rrf_k g) [] (fst (semantic_results env query mt g))
                      = Inr out
                  \<and> fst (recall env query k mt g) = Inr (map to_result (py_take k out))"
    if "initialized g" "lexical_failed env query mt g" "0 < rrf_k g"
       "fst (semantic_results env query mt g) \<noteq> []"
    using recall_lexical_down [OF that(1) that(3) that(4), of k]
    by (simp add: lexical_failed_empty [OF that(2)])
  from 1 2 3 4 show ?thesis by blast
qed

lemma embed_down: "fst (fst (embed (\<lambda>m t. ConnectError) ''q'' (new_engine ''m'' 1 2)))
   = Failure FallbackEmbeddingFailed"
  by (simp add: embed_def fallback_embed_def new_engine_def cache_key_def strip_def is_space_def
      Let_def)

lemma embed_up: "embed net_ok ''q'' (new_engine ''m'' 1 2)
   = ((Success [1], [''m'']), (new_engine ''m'' 1 2)
        \<lparr>cache := [(''m:q'', [1])], cache_order := [''m:q''], cache_misses := 1\<rparr>)"
  by (simp add: embed_def net_ok_def new_engine_def cache_key_def strip_def is_space_def
      add_to_cache_def cache_keys_def Let_def)

lemma sem_semantic_q:
  "fst (semantic_results env_semantic ''q'' None graph_q) = [(row_to_entry (mk_row ''b'' 2), 9/10)]"
  by (simp add: semantic_results_def semantic_search_def graph_q_simps env_semantic_def embed_up
      mk_row_def)

lemma row_entry_id: "entry_id (row_to_entry (mk_row i t)) = i"
  by (simp add: row_to_entry_def mk_row_def)

lemma rrf_semantic_q:
  "reciprocal_rank_fusion 60 [] [(row_to_entry (mk_row ''b'' 2), 9/10)]
     = Inr [(row_to_entry (mk_row ''b'' 2), 1/60, ''semantic'')]"
  by (simp add: reciprocal_rank_fusion_def reciprocal_rank_fusion_with_def exact_simps
      score_get_def sorted_ids_def rrf_source_def ids_def Let_def row_entry_id)

theorem recall_never_raises_witness:
  "lexical_failed env_down ''q'' None graph_q \<and> semantic_failed env_down ''q'' None graph_q
   \<and> initialized graph_q
   \<and> fst (recall env_down ''q'' 5 None graph_q) = Inr []
   \<and> lexical_failed env_semantic ''q'' None graph_q \<and> 0 < rrf_k graph_q
   \<and> fst (semantic_results env_semantic ''q'' None graph_q) \<noteq> []
   \<and> fst (recall env_semantic ''q'' 5 None graph_q) =
       Inr [\<lparr> entry = row_to_entry (mk_row ''b'' 2), score = 1/60, source = ''semantic'' \<rparr>]"
proof -
  have a: "lexical_failed env_down ''q'' None graph_q"
    by (simp add: lexical_failed_def env_down_def)
  have b: "semantic_failed env_down ''q'' None graph_q"
    by (simp add: semantic_failed_def graph_q_simps env_down_def embed_down)
  have c: "lexical_failed env_semantic ''q'' None graph_q"
    by (simp add: lexical_failed_def env_semantic_def)
  have d: "fst (semantic_results env_semantic ''q'' None graph_q) \<noteq> []"
    by (simp add: sem_semantic_q)
  have k: "0 < rrf_k graph_q" by (simp add: graph_q_simps)
  from recall_never_raises [of env_down "''q''" 5 None graph_q] a b
  have r1: "fst (recall env_down ''q'' 5 None graph_q) = Inr []" by blast
  from recall_never_raises [of env_semantic "''q''" 5 None graph_q] c d k graph_q_simps(1)
  obtain out where o: "reciprocal_rank_fusion (rrf_k graph_q) []
        (fst (semantic_results env_semantic ''q'' None graph_q)) = Inr out"
    and r: "fst (recall env_semantic ''q'' 5 None graph_q) = Inr (map to_result (py_take 5 out))"
    by blast
  from o have "out = [(row_to_entry (mk_row ''b'' 2), 1/60, ''semantic'')]"
    by (simp add: sem_semantic_q graph_q_simps rrf_semantic_q)
  with r have r2: "fst (recall env_semantic ''q'' 5 None graph_q) =
       Inr [\<lparr> entry = row_to_entry (mk_row ''b'' 2), score = 1/60, source = ''semantic'' \<rparr>]"
    by (simp add: py_take_def to_result_def)
  show ?thesis by (intro conjI a b c d k r1 r2 graph_q_simps(1))
qed

text \<open>
  C10. \<open>delete\<close> returns success with the value True exactly when the SQLite delete and
  commit do not raise: whether or not a row with that id exists, and whether or not the
  removal from the vector index fails. Every other outcome is a failure, never success
  with False. When no row has the id, the table is left as it was, and the result is
  still True.
\<close>

theorem delete_reports_only_store_failure:
  "(fst (delete env i g) = Success True \<longleftrightarrow> conn g \<noteq> None \<and> sqlite_delete env i = None)
   \<and> (fst (delete env i g) \<noteq> Success True \<longrightarrow> (\<exists>err. fst (delete env i g) = Failure err))
   \<and> (conn g = Some rows \<and> sqlite_delete env i = None \<and> i \<notin> set (map row_id rows)
        \<longrightarrow> conn (snd (delete env i g)) = Some rows)"
proof -
  have c: "conn (if qdrant_available g then
                  (case qdrant_delete env i of
                     None \<Rightarrow> g\<lparr>points := removeAll i (points g)\<rparr>
                   | Some err \<Rightarrow> g)
                else g) = conn g"
    by (simp split: option.splits)
  have f: "filter (\<lambda>r. row_id r \<noteq> i) rows = rows" if "i \<notin> set (map row_id rows)"
    using that by (induction rows) auto
  show ?thesis
    using c f by (auto simp: delete_def Let_def split: option.splits)
qed

theorem delete_reports_only_store_failure_witness:
  "conn graph_q = Some [mk_row ''a'' 1, mk_row ''b'' 2] \<and> sqlite_delete env_lexical ''zz'' = None
   \<and> ''zz'' \<notin> set (map row_id [mk_row ''a'' 1, mk_row ''b'' 2])
   \<and> qdrant_delete env_lexical ''zz'' = Some ValueError
   \<and> fst (delete env_lexical ''zz'' graph_q) = Success True
   \<and> conn (snd (delete env_lexical ''zz'' graph_q)) = Some [mk_row ''a'' 1, mk_row ''b'' 2]
   \<and> fst (delete env_lexical ''a'' graph_q) = Success True
   \<and> fst (delete env_down ''a'' graph_q) = Failure DatabaseError"
proof -
  have a: "sqlite_delete env_lexical ''zz'' = None" "sqlite_delete env_lexical ''a'' = None"
    "qdrant_delete env_lexical ''zz'' = Some ValueError"
    by (simp_all add: env_lexical_def)
  have b: "''zz'' \<notin> set (map row_id [mk_row ''a'' 1, mk_row ''b'' 2])"
    by (simp add: mk_row_def)
  have d: "fst (delete env_down ''a'' graph_q) = Failure DatabaseError"
    by (simp add: delete_def graph_q_simps env_down_def Let_def)
  from delete_reports_only_store_failure [of env_lexical "''zz''" graph_q
      "[mk_row ''a'' 1, mk_row ''b'' 2]"]
    delete_reports_only_store_failure [of env_lexical "''a''" graph_q
      "[mk_row ''a'' 1, mk_row ''b'' 2]"]
    a b d graph_q_simps(2)
  show ?thesis by simp
qed

section \<open>Chunking\<close>


lemma reconstruct_snoc:
  "chunks \<noteq> [] \<Longrightarrow> reconstruct ov (chunks @ [x]) = reconstruct ov chunks @ drop (nat ov) x"
  by (cases chunks) (simp_all add: reconstruct_def)

lemma py_slice_window:
  assumes "0 \<le> i" and "0 \<le> e"
  shows "py_slice text i e = take (nat e - nat i) (drop (nat i) text)"
proof -
  have "take (min (nat e) (length text) - min (nat i) (length text)) (drop (min (nat i) (length text)) text)
        = take (nat e - nat i) (drop (nat i) text)"
  proof (cases "nat i \<le> length text")
    case True
    then have m: "min (nat i) (length text) = nat i" by simp
    show ?thesis
    proof (cases "nat e \<le> length text")
      case True
      then show ?thesis by (simp add: m)
    next
      case False
      then have "min (nat e) (length text) = length text" by simp
      then show ?thesis using False by (simp add: m)
    qed
  next
    case False
    then show ?thesis by simp
  qed
  then show ?thesis
    using assms by (simp add: py_slice_def py_bound_def Let_def)
qed

lemma window_piece:
  assumes "0 \<le> ov" and "ov < cs" and "0 \<le> i" and "i < int (length text)"
  shows "take (nat (i + ov)) text
           @ drop (nat ov) (py_slice text i (min (i + cs) (int (length text))))
         = take (nat (i + cs)) text"
proof -
  let ?e = "min (i + cs) (int (length text))"
  have e0: "0 \<le> ?e" using assms by simp
  have "drop (nat ov) (py_slice text i ?e)
          = take (nat ?e - nat i - nat ov) (drop (nat i + nat ov) text)"
    unfolding py_slice_window [OF assms(3) e0] by (simp add: drop_take add.commute)
  moreover have "nat i + nat ov = nat (i + ov)" using assms by (simp add: nat_add_distrib)
  ultimately have "take (nat (i + ov)) text @ drop (nat ov) (py_slice text i ?e)
          = take (nat (i + ov) + (nat ?e - nat i - nat ov)) text"
    by (simp add: take_add)
  also have "\<dots> = take (nat (i + cs)) text"
  proof (cases "i + cs \<le> int (length text)")
    case True
    then have "nat (i + ov) + (nat ?e - nat i - nat ov) = nat (i + cs)"
      using assms by (simp add: min_def) 
    then show ?thesis by simp
  next
    case False
    then have "length text \<le> nat (i + ov) + (nat ?e - nat i - nat ov)"
      using assms by (simp add: min_def)
    moreover from False have "length text \<le> nat (i + cs)" by linarith
    ultimately show ?thesis by simp
  qed
  finally show ?thesis .
qed

lemma window_loop_reconstruct:
  assumes "0 \<le> ov" and "ov < cs"
  shows "0 \<le> i \<Longrightarrow> chunks \<noteq> [] \<Longrightarrow> reconstruct ov chunks = take (nat (i + ov)) text
         \<Longrightarrow> \<exists>out. window_loop cs ov text i chunks = Some out \<and> reconstruct ov out = text"
proof (induction "nat (int (length text) - i)" arbitrary: i chunks rule: less_induct)
  case less
  show ?case
  proof (cases "i < int (length text)")
    case True
    let ?x = "py_slice text i (min (i + cs) (int (length text)))"
    let ?i = "i + (cs - ov)"
    have m: "nat (int (length text) - ?i) < nat (int (length text) - i)"
      using True assms by simp
    have i0: "0 \<le> ?i" using less.prems(1) assms by simp
    have ne: "chunks @ [?x] \<noteq> []" by simp
    have "reconstruct ov (chunks @ [?x]) = take (nat (i + ov)) text @ drop (nat ov) ?x"
      by (simp add: reconstruct_snoc [OF less.prems(2)] less.prems(3))
    also have "\<dots> = take (nat (i + cs)) text"
      by (rule window_piece [OF assms less.prems(1) True])
    finally have r: "reconstruct ov (chunks @ [?x]) = take (nat (?i + ov)) text" by simp
    from less.hyps [OF m i0 ne r] obtain out where
      "window_loop cs ov text ?i (chunks @ [?x]) = Some out" "reconstruct ov out = text"
      by blast
    moreover have "window_loop cs ov text i chunks = window_loop cs ov text ?i (chunks @ [?x])"
      using True by (subst window_loop.simps) simp
    ultimately show ?thesis by simp
  next
    case False
    then have "window_loop cs ov text i chunks = Some chunks"
      by (subst window_loop.simps) simp
    moreover have "reconstruct ov chunks = text"
      using less.prems(3) False assms by simp
    ultimately show ?thesis by simp
  qed
qed

lemma window_loop_round_trip:
  assumes "0 \<le> ov" and "ov < cs" and "cs < int (length text)"
  shows "\<exists>out. window_loop cs ov text 0 [] = Some out \<and> reconstruct ov out = text"
proof -
  let ?x = "py_slice text 0 (min (0 + cs) (int (length text)))"
  have x: "?x = take (nat cs) text"
    using assms by (simp add: py_slice_window)
  have pos: "0 < int (length text)" using assms by linarith
  have s: "window_loop cs ov text 0 [] = window_loop cs ov text (cs - ov) [?x]"
    by (subst window_loop.simps) (simp only: pos if_True append_Nil add_0)
  have r: "reconstruct ov [?x] = take (nat ((cs - ov) + ov)) text"
    unfolding x by (simp add: reconstruct_def)
  have "\<exists>out. window_loop cs ov text (cs - ov) [?x] = Some out \<and> reconstruct ov out = text"
    by (rule window_loop_reconstruct [OF assms(1,2) _ _ r]) (use assms in simp_all)
  then show ?thesis unfolding s .
qed

lemma split_blank_nonempty: "split_blank acc s \<noteq> []"
  by (induction acc s rule: split_blank.induct) auto

lemma split_blank_single:
  "length (split_blank acc s) = 1 \<Longrightarrow> split_blank acc s = [acc @ s]"
  by (induction acc s rule: split_blank.induct) (auto simp: split_blank_nonempty split: if_splits)

lemma chunk_content_window:
  assumes "0 \<le> ov" and "ov < cs" and "cs < int (length doc)" and "\<not> has_blank_line doc"
  shows "\<exists>chunks. chunk_content cs ov doc = Some chunks \<and> reconstruct ov chunks = doc"
proof -
  from assms(4) have "split_blank [] doc = [doc]"
    using split_blank_single [of "[]" doc] by (simp add: has_blank_line_def)
  then have "chunk_content cs ov doc = window_loop cs ov doc 0 []"
    using assms(3) by (simp add: chunk_content_def Let_def)
  then show ?thesis using window_loop_round_trip [OF assms(1,2,3)] by simp
qed

lemma is_space_newline: "is_space newline"
  by (simp add: is_space_def newline_def)

lemma is_space_blank: "is_space CHR '' ''"
  by (simp add: is_space_def)

lemma non_space_append: "non_space (xs @ ys) = non_space xs @ non_space ys"
  by (simp add: non_space_def)

lemma non_space_dropWhile: "non_space (dropWhile is_space s) = non_space s"
  by (induction s) (simp_all add: non_space_def)

lemma non_space_rev: "non_space (rev s) = rev (non_space s)"
  by (simp add: non_space_def rev_filter)

lemma non_space_strip: "non_space (strip s) = non_space s"
  by (simp add: strip_def non_space_rev non_space_dropWhile)

lemma non_space_split: "non_space (concat (split_blank acc s)) = non_space (acc @ s)"
  by (induction acc s rule: split_blank.induct)
     (simp_all add: non_space_append, simp add: non_space_def is_space_newline)

lemma non_space_pack:
  "non_space (concat (pack_paragraphs cs cur chunks paras))
     = non_space (concat chunks @ cur @ concat paras)"
proof (induction paras arbitrary: cur chunks)
  case Nil
  then show ?case by (simp add: non_space_append non_space_strip) (simp add: non_space_def)
next
  case (Cons para rest)
  have nl: "non_space (newline # newline # xs) = non_space xs" for xs
    by (simp add: non_space_def is_space_newline)
  have e: "non_space [] = []" by (simp add: non_space_def)
  show ?case
    by (simp add: Cons.IH non_space_append non_space_strip nl e)
qed

lemma overlap_of_length:
  assumes "0 < ov"
  shows "length (overlap_of ov prev) = min (nat ov) (length prev)"
  using assms by (auto simp: overlap_of_def py_slice_from_def py_bound_def)

lemma drop_overlap_prefix:
  assumes "0 < ov" and "ov \<le> int (length prev) + 1"
  shows "non_space (drop (nat ov) (overlap_of ov prev @ '' '' @ chunk)) = non_space chunk"
proof (cases "nat ov \<le> length prev")
  case True
  then have "length (overlap_of ov prev) = nat ov"
    using overlap_of_length [OF assms(1), of prev] by simp
  then have "drop (nat ov) (overlap_of ov prev @ '' '' @ chunk) = '' '' @ chunk" by simp
  then show ?thesis by (simp add: non_space_def is_space_blank)
next
  case False
  with assms have l: "nat ov = Suc (length prev)" by linarith
  have "overlap_of ov prev = prev" using False by (simp add: overlap_of_def) linarith
  then have "drop (nat ov) (overlap_of ov prev @ '' '' @ chunk) = chunk" by (simp add: l)
  then show ?thesis by simp
qed

lemma non_space_overlap_from:
  assumes "0 < ov"
  shows "\<forall>p \<in> set (butlast (prev # rest)). ov \<le> int (length p) + 1
         \<Longrightarrow> non_space (concat (map (drop (nat ov)) (overlap_from ov prev rest)))
             = non_space (concat rest)"
proof (induction rest arbitrary: prev)
  case Nil
  then show ?case by simp
next
  case (Cons c rest)
  from Cons.prems have p: "ov \<le> int (length prev) + 1"
    and r: "\<forall>p \<in> set (butlast (c # rest)). ov \<le> int (length p) + 1" by simp_all
  have h: "non_space (drop (nat ov) (overlap_of ov prev @ '' '' @ c)) = non_space c"
    by (rule drop_overlap_prefix [OF assms p])
  show ?case
    by (simp only: overlap_from.simps list.map concat.simps non_space_append h Cons.IH [OF r])
qed

lemma non_space_add_overlap:
  assumes "0 < ov" and "\<forall>p \<in> set (butlast chunks). ov \<le> int (length p) + 1"
  shows "non_space (reconstruct ov (add_overlap ov chunks)) = non_space (concat chunks)"
proof (cases chunks)
  case Nil
  then show ?thesis by (simp add: add_overlap_def reconstruct_def)
next
  case (Cons first rest)
  show ?thesis
  proof (cases rest)
    case Nil
    then show ?thesis by (simp add: Cons add_overlap_def reconstruct_def)
  next
    case c: (Cons c rest')
    have "non_space (concat (map (drop (nat ov)) (overlap_from ov first rest)))
             = non_space (concat rest)"
      by (rule non_space_overlap_from [OF assms(1)]) (use assms(2) Cons in simp)
    then show ?thesis
      by (simp add: Cons c add_overlap_def reconstruct_def non_space_append)
  qed
qed

lemma chunk_content_paragraphs:
  assumes "0 < ov" and "cs < int (length doc)" and "has_blank_line doc"
    and "\<forall>p \<in> set (butlast (pack_paragraphs cs [] [] (split_blank [] doc))).
           ov \<le> int (length p) + 1"
  shows "\<exists>chunks. chunk_content cs ov doc = Some chunks
     \<and> chunks = add_overlap ov (pack_paragraphs cs [] [] (split_blank [] doc))
     \<and> non_space (reconstruct ov chunks) = non_space doc"
proof -
  have c: "chunk_content cs ov doc
             = Some (add_overlap ov (pack_paragraphs cs [] [] (split_blank [] doc)))"
    using assms(2,3) by (simp add: chunk_content_def has_blank_line_def Let_def)
  have "non_space (reconstruct ov (add_overlap ov (pack_paragraphs cs [] [] (split_blank [] doc))))
          = non_space (concat (pack_paragraphs cs [] [] (split_blank [] doc)))"
    by (rule non_space_add_overlap [OF assms(1,4)])
  also have "\<dots> = non_space doc"
    by (simp add: non_space_pack non_space_split)
  finally show ?thesis using c by simp
qed

lemma chunk_content_blank_line:
  assumes "cs < int (length doc)" and "has_blank_line doc"
  shows "chunk_content cs ov doc
           = Some (add_overlap ov (pack_paragraphs cs [] [] (split_blank [] doc)))"
  using assms by (simp add: chunk_content_def has_blank_line_def Let_def)

lemma split_blank_no_newline: "newline \<notin> set s \<Longrightarrow> split_blank acc s = [acc @ s]"
  by (induction acc s rule: split_blank.induct) auto

lemma strip_replicate_blank:
  assumes "\<not> is_space c"
  shows "strip (replicate n c @ [newline, newline]) = replicate n c"
proof (cases n)
  case 0
  then show ?thesis by (simp add: strip_def is_space_newline)
next
  case (Suc m)
  have a: "dropWhile is_space (replicate (Suc m) c @ [newline, newline])
             = replicate (Suc m) c @ [newline, newline]"
    using assms by simp
  have b: "rev (replicate (Suc m) c @ [newline, newline]) = newline # newline # replicate (Suc m) c"
    by (simp del: replicate.simps)
  have c: "dropWhile is_space (newline # newline # replicate (Suc m) c) = replicate (Suc m) c"
    using assms by (simp add: is_space_newline)
  show ?thesis
    unfolding Suc strip_def a b c by (simp del: replicate.simps)
qed

lemma not_space_b: "\<not> is_space CHR ''b''"
  by (simp add: is_space_def)

lemma split_short_long:
  "split_blank [] doc_short_long = [''short'', replicate 4993 CHR ''b'']"
proof -
  have n: "newline \<notin> set (replicate 4993 CHR ''b'')" by (simp add: newline_def)
  have "split_blank [] doc_short_long = ''short'' # split_blank [] (replicate 4993 CHR ''b'')"
    by (simp add: doc_short_long_def) (simp add: newline_def)
  then show ?thesis by (simp add: split_blank_no_newline [OF n])
qed

lemma chunks_short_long:
  "chunk_content 500 50 doc_short_long
     = Some [''short'', ''short '' @ replicate 4993 CHR ''b'']"
proof -
  have l: "(500::int) < int (length doc_short_long)" by (simp add: doc_short_long_def)
  have h: "has_blank_line doc_short_long" by (simp add: has_blank_line_def split_short_long)
  have s: "strip (''short'' @ [newline, newline]) = ''short''"
    by (simp add: strip_def is_space_def newline_def)
  have p: "pack_paragraphs 500 [] [] [''short'', replicate 4993 CHR ''b'']
             = [''short'', replicate 4993 CHR ''b'']"
    using s strip_replicate_blank [OF not_space_b, of 4993] by simp
  show ?thesis
    unfolding chunk_content_blank_line [OF l h] split_short_long p
    by (simp add: add_overlap_def overlap_of_def)
qed

lemma dropWhile_space_prefix:
  "\<forall>c \<in> set w. is_space c \<Longrightarrow> dropWhile is_space (w @ s) = dropWhile is_space s"
  by (induction w) auto

lemma spans_skip: "\<forall>c \<in> set w. is_space c \<Longrightarrow> spans cs (w @ s) = spans cs s"
  by (cases cs) (simp_all add: dropWhile_space_prefix)

lemma spans_dropWhile: "spans cs (dropWhile is_space s) = spans cs s"
  by (cases cs) (simp_all add: dropWhile_dropWhile1)

text \<open>A text is whitespace, its stripped form, whitespace.\<close>

lemma strip_decomp:
  "\<exists>lead trail. s = lead @ strip s @ trail
     \<and> (\<forall>c \<in> set lead. is_space c) \<and> (\<forall>c \<in> set trail. is_space c)
     \<and> dropWhile is_space s = strip s @ trail"
proof -
  define d where "d = dropWhile is_space s"
  define trail where "trail = rev (takeWhile is_space (rev d))"
  have s: "s = takeWhile is_space s @ d" by (simp add: d_def)
  have "rev (dropWhile is_space (rev d)) @ rev (takeWhile is_space (rev d))
          = rev (takeWhile is_space (rev d) @ dropWhile is_space (rev d))"
    by (simp only: rev_append)
  also have "\<dots> = d" by (simp only: takeWhile_dropWhile_id rev_rev_ident)
  finally have d: "d = strip s @ trail"
    by (simp add: strip_def d_def [symmetric] trail_def)
  have l: "\<forall>c \<in> set (takeWhile is_space s). is_space c" by (auto dest: set_takeWhileD)
  have t: "\<forall>c \<in> set trail. is_space c" by (auto simp: trail_def dest: set_takeWhileD)
  show ?thesis
    apply (rule exI [of _ "takeWhile is_space s"], rule exI [of _ trail])
    using s d l t by (simp add: d_def [symmetric])
qed

lemma strip_head: "strip s \<noteq> [] \<Longrightarrow> \<not> is_space (hd (strip s))"
proof -
  assume n: "strip s \<noteq> []"
  from strip_decomp [of s] obtain trail where d: "dropWhile is_space s = strip s @ trail"
    by blast
  then have "dropWhile is_space s \<noteq> []" using n by simp
  then have "\<not> is_space (hd (dropWhile is_space s))" by (rule hd_dropWhile)
  then show ?thesis using d n by simp
qed

lemma spans_groups: "spans (map strip gs) (concat gs)"
proof (induction gs)
  case Nil
  then show ?case by simp
next
  case (Cons g gs)
  from strip_decomp [of g] obtain lead trail where
    g: "g = lead @ strip g @ trail" and l: "\<forall>c \<in> set lead. is_space c"
    and t: "\<forall>c \<in> set trail. is_space c" by blast
  have tr: "spans (map strip gs) (trail @ concat gs)"
    by (simp add: spans_skip [OF t] Cons.IH)
  show ?case
  proof (cases "strip g = []")
    case True
    with g l t have a: "\<forall>c \<in> set g. is_space c" by (metis append_Nil set_append UnE)
    have "dropWhile is_space (g @ concat gs) = dropWhile is_space (concat gs)"
      by (rule dropWhile_space_prefix [OF a])
    then show ?thesis using True Cons.IH by (simp add: spans_dropWhile)
  next
    case False
    then obtain x xs where x: "strip g = x # xs" by (cases "strip g") auto
    with strip_head [OF False] have nx: "\<not> is_space x" by simp
    have "dropWhile is_space (g @ concat gs) = dropWhile is_space (strip g @ trail @ concat gs)"
      by (subst g) (simp add: dropWhile_space_prefix [OF l])
    also have "\<dots> = strip g @ trail @ concat gs" using nx by (simp add: x)
    finally show ?thesis using tr by simp
  qed
qed

lemma strip_skip: "\<forall>c \<in> set w. is_space c \<Longrightarrow> strip (w @ s) = strip s"
  by (simp add: strip_def dropWhile_space_prefix)

lemma strip_trail:
  assumes "\<forall>c \<in> set w. is_space c"
  shows "strip (s @ w) = strip s"
proof (cases "\<forall>c \<in> set s. is_space c")
  case True
  then have "dropWhile is_space s = []" by (simp add: dropWhile_eq_Nil_conv)
  moreover have "dropWhile is_space (s @ w) = []"
    using True assms by (auto simp: dropWhile_eq_Nil_conv)
  ultimately show ?thesis by (simp only: strip_def)
next
  case False
  then obtain x where "x \<in> set s" "\<not> is_space x" by blast
  then have "dropWhile is_space (s @ w) = dropWhile is_space s @ w"
    by (rule dropWhile_append1)
  moreover have "\<forall>c \<in> set (rev w). is_space c" using assms by simp
  ultimately show ?thesis
    by (simp add: strip_def dropWhile_space_prefix)
qed

lemma strip_idem: "strip (strip s) = strip s"
proof -
  from strip_decomp [of s] obtain lead trail where
    s: "s = lead @ strip s @ trail" and l: "\<forall>c \<in> set lead. is_space c"
    and t: "\<forall>c \<in> set trail. is_space c" by blast
  have "strip s = strip (lead @ (strip s @ trail))" using s by simp
  also have "\<dots> = strip (strip s @ trail)" by (rule strip_skip [OF l])
  also have "\<dots> = strip (strip s)" by (rule strip_trail [OF t])
  finally show ?thesis by simp
qed

lemma join_split:
  "concat (map (\<lambda>p. p @ [newline, newline]) (split_blank acc s)) = acc @ s @ [newline, newline]"
  by (induction acc s rule: split_blank.induct) auto

text \<open>
  The packed chunks are the stripped forms of consecutive groups of the paragraphs, each
  paragraph followed by its separator.
\<close>

lemma pack_groups:
  assumes "cur = [] \<or> (\<exists>c. cur = c @ [newline, newline])"
  shows "\<exists>gs. pack_paragraphs cs cur chunks paras = chunks @ map strip gs
           \<and> concat gs = cur @ concat (map (\<lambda>p. p @ [newline, newline]) paras)
           \<and> (\<forall>g \<in> set gs. \<exists>g'. g = g' @ [newline, newline])"
  using assms
proof (induction paras arbitrary: cur chunks)
  case Nil
  show ?case
  proof (cases "cur = []")
    case True
    then show ?thesis by simp
  next
    case False
    with Nil obtain c where "cur = c @ [newline, newline]" by blast
    then show ?thesis using False by (intro exI [of _ "[cur]"]) simp
  qed
next
  case (Cons para rest)
  show ?case
  proof (cases "int (length cur) + int (length para) < cs")
    case True
    have "cur @ para @ [newline, newline] = [] \<or>
          (\<exists>c. cur @ para @ [newline, newline] = c @ [newline, newline])"
      by (metis append_assoc)
    from Cons.IH [OF this, of chunks] obtain gs where
      "pack_paragraphs cs (cur @ para @ [newline, newline]) chunks rest = chunks @ map strip gs"
      "concat gs = (cur @ para @ [newline, newline])
                     @ concat (map (\<lambda>p. p @ [newline, newline]) rest)"
      "\<forall>g \<in> set gs. \<exists>g'. g = g' @ [newline, newline]" by blast
    then show ?thesis using True by (intro exI [of _ gs]) simp
  next
    case False
    have p: "para @ [newline, newline] = [] \<or> (\<exists>c. para @ [newline, newline] = c @ [newline, newline])"
      by blast
    show ?thesis
    proof (cases "cur = []")
      case True
      from Cons.IH [OF p, of chunks] obtain gs where
        "pack_paragraphs cs (para @ [newline, newline]) chunks rest = chunks @ map strip gs"
        "concat gs = (para @ [newline, newline])
                       @ concat (map (\<lambda>p. p @ [newline, newline]) rest)"
        "\<forall>g \<in> set gs. \<exists>g'. g = g' @ [newline, newline]" by blast
      then show ?thesis using False True by (intro exI [of _ gs]) simp
    next
      case ne: False
      with Cons.prems obtain c where c: "cur = c @ [newline, newline]" by blast
      from Cons.IH [OF p, of "chunks @ [strip cur]"] obtain gs where
        "pack_paragraphs cs (para @ [newline, newline]) (chunks @ [strip cur]) rest
           = (chunks @ [strip cur]) @ map strip gs"
        "concat gs = (para @ [newline, newline])
                       @ concat (map (\<lambda>p. p @ [newline, newline]) rest)"
        "\<forall>g \<in> set gs. \<exists>g'. g = g' @ [newline, newline]" by blast
      then show ?thesis using False ne c by (intro exI [of _ "cur # gs"]) auto
    qed
  qed
qed

lemma packed_groups_of_doc:
  "\<exists>gs. pack_paragraphs cs [] [] (split_blank [] doc) = map strip gs \<and> concat gs = doc"
proof -
  from pack_groups [of "[]" cs "[]" "split_blank [] doc"] obtain gs where
    p: "pack_paragraphs cs [] [] (split_blank [] doc) = map strip gs"
    and c: "concat gs = doc @ [newline, newline]"
    and e: "\<forall>g \<in> set gs. \<exists>g'. g = g' @ [newline, newline]"
    by (auto simp: join_split)
  from c have ne: "gs \<noteq> []" by auto
  then have "last gs \<in> set gs" by simp
  with e obtain g' where g': "last gs = g' @ [newline, newline]" by blast
  define hs where "hs = butlast gs @ [g']"
  have gs: "gs = butlast gs @ [g' @ [newline, newline]]"
    using ne g' by (metis append_butlast_last_id)
  have "concat gs = concat (butlast gs) @ g' @ [newline, newline]"
    by (subst gs) simp
  with c have d: "concat hs = doc" by (simp add: hs_def)
  have w: "\<forall>c \<in> set [newline, newline]. is_space c" by (simp add: is_space_newline)
  have "map strip gs = map strip (butlast gs) @ [strip (g' @ [newline, newline])]"
    by (subst gs) simp
  also have "\<dots> = map strip hs" by (simp add: hs_def strip_trail [OF w])
  finally show ?thesis using p d by (intro exI [of _ hs]) simp
qed

lemma packed_spans_doc: "spans (pack_paragraphs cs [] [] (split_blank [] doc)) doc"
  using packed_groups_of_doc [of cs doc] spans_groups by force

lemma packed_stripped:
  "\<forall>c \<in> set (pack_paragraphs cs [] [] (split_blank [] doc)). strip c = c"
  using packed_groups_of_doc [of cs doc] by (auto simp: strip_idem)

lemma drop_overlap_piece:
  assumes "0 < ov" and "ov \<le> int (length prev) + 1"
  shows "drop (nat ov) (overlap_of ov prev @ '' '' @ chunk) = '' '' @ chunk
       \<or> drop (nat ov) (overlap_of ov prev @ '' '' @ chunk) = chunk"
proof (cases "nat ov \<le> length prev")
  case True
  then have "length (overlap_of ov prev) = nat ov"
    using overlap_of_length [OF assms(1), of prev] by simp
  then show ?thesis by simp
next
  case False
  with assms have l: "nat ov = Suc (length prev)" by linarith
  have "overlap_of ov prev = prev" using False by (simp add: overlap_of_def) linarith
  then show ?thesis by (simp add: l)
qed

lemma strip_overlap_piece:
  assumes "0 < ov" and "ov \<le> int (length prev) + 1" and "strip chunk = chunk"
  shows "strip (drop (nat ov) (overlap_of ov prev @ '' '' @ chunk)) = chunk"
proof -
  have w: "\<forall>c \<in> set '' ''. is_space c" by (simp add: is_space_blank)
  from drop_overlap_piece [OF assms(1,2), of chunk] show ?thesis
    using strip_skip [OF w, of chunk] assms(3) by auto
qed

lemma overlap_from_pieces:
  assumes "0 < ov"
  shows "\<forall>p \<in> set (butlast (prev # rest)). ov \<le> int (length p) + 1
         \<Longrightarrow> \<forall>c \<in> set rest. strip c = c
         \<Longrightarrow> map strip (map (drop (nat ov)) (overlap_from ov prev rest)) = rest"
proof (induction rest arbitrary: prev)
  case Nil
  then show ?case by simp
next
  case (Cons c rest)
  from Cons.prems have p: "ov \<le> int (length prev) + 1"
    and r: "\<forall>p \<in> set (butlast (c # rest)). ov \<le> int (length p) + 1"
    and sc: "strip c = c" and sr: "\<forall>c \<in> set rest. strip c = c" by simp_all
  have h: "strip (drop (nat ov) (overlap_of ov prev @ '' '' @ c)) = c"
    by (rule strip_overlap_piece [OF assms p sc])
  show ?case
    by (simp only: overlap_from.simps list.map h Cons.IH [OF r sr])
qed

lemma reconstruct_spans:
  assumes "0 < ov" and "\<forall>p \<in> set (butlast chunks). ov \<le> int (length p) + 1"
    and "\<forall>c \<in> set chunks. strip c = c"
  shows "spans chunks (reconstruct ov (add_overlap ov chunks))"
proof (cases chunks)
  case Nil
  then show ?thesis by (simp add: add_overlap_def reconstruct_def)
next
  case (Cons first rest)
  define ps where "ps = first # map (drop (nat ov)) (overlap_from ov first rest)"
  have r: "reconstruct ov (add_overlap ov chunks) = concat ps"
    by (cases rest) (simp_all add: Cons add_overlap_def reconstruct_def ps_def)
  have "map strip (map (drop (nat ov)) (overlap_from ov first rest)) = rest"
    by (rule overlap_from_pieces [OF assms(1)]) (use assms(2,3) Cons in simp_all)
  then have m: "map strip ps = chunks"
    using assms(3) by (simp add: ps_def Cons)
  have "spans (map strip ps) (concat ps)" by (rule spans_groups)
  then show ?thesis by (simp only: r m)
qed

text \<open>
  C3, as the code has it, for \<open>0 \<le> overlap < chunk_size\<close> and a content longer than
  \<open>chunk_size\<close>. The chunker returns. If the content has no blank-line separator,
  dropping the first \<open>overlap\<close> characters of every chunk but the first and
  concatenating gives the content back exactly; this covers every such content of length
  5000 with sizes 500 and 50. If it has one, \<open>overlap\<close> is positive and every packed
  paragraph chunk but the last has at least \<open>overlap - 1\<close> characters, the
  reconstruction equals the content with at most boundary-adjacent whitespace
  differences: the chunks returned are the packed chunks with their overlap prefixes, no
  packed chunk starts or ends with whitespace, and the content and the reconstruction are
  both the packed chunks in order with nothing but whitespace before, between and after
  them; so their other characters agree, in order.
\<close>

theorem chunk_round_trip:
  assumes "0 \<le> ov" and "ov < cs" and "cs < int (length doc)"
  shows "(\<exists>chunks. chunk_content cs ov doc = Some chunks)
       \<and> (\<not> has_blank_line doc \<longrightarrow> round_trip cs ov doc = Some doc)
       \<and> (has_blank_line doc \<and> 0 < ov
            \<and> (\<forall>p \<in> set (butlast (pack_paragraphs cs [] [] (split_blank [] doc))).
                  ov \<le> int (length p) + 1)
            \<longrightarrow> chunk_content cs ov doc
                  = Some (add_overlap ov (pack_paragraphs cs [] [] (split_blank [] doc)))
              \<and> (\<forall>c \<in> set (pack_paragraphs cs [] [] (split_blank [] doc)). strip c = c)
              \<and> spans (pack_paragraphs cs [] [] (split_blank [] doc)) doc
              \<and> map_option (spans (pack_paragraphs cs [] [] (split_blank [] doc)))
                   (round_trip cs ov doc) = Some True
              \<and> map_option non_space (round_trip cs ov doc) = Some (non_space doc))"
proof (cases "has_blank_line doc")
  case False
  from chunk_content_window [OF assms False] obtain chunks where
    "chunk_content cs ov doc = Some chunks" "reconstruct ov chunks = doc" by blast
  then show ?thesis using False by (simp add: round_trip_def)
next
  case True
  let ?packed = "pack_paragraphs cs [] [] (split_blank [] doc)"
  note cc = chunk_content_blank_line [OF assms(3) True, of ov]
  have 1: "\<exists>chunks. chunk_content cs ov doc = Some chunks" by (simp add: cc)
  have 2: "chunk_content cs ov doc = Some (add_overlap ov ?packed)
              \<and> (\<forall>c \<in> set ?packed. strip c = c)
              \<and> spans ?packed doc
              \<and> map_option (spans ?packed) (round_trip cs ov doc) = Some True
              \<and> map_option non_space (round_trip cs ov doc) = Some (non_space doc)"
    if p: "0 < ov" and l: "\<forall>p \<in> set (butlast ?packed). ov \<le> int (length p) + 1"
  proof -
    have s: "\<forall>c \<in> set ?packed. strip c = c" by (rule packed_stripped)
    have d: "spans ?packed doc" by (rule packed_spans_doc)
    have r: "spans ?packed (reconstruct ov (add_overlap ov ?packed))"
      by (rule reconstruct_spans [OF p l s])
    have n: "map_option non_space (round_trip cs ov doc) = Some (non_space doc)"
      using chunk_content_paragraphs [OF p assms(3) True l] by (auto simp: round_trip_def)
    have rt: "round_trip cs ov doc = Some (reconstruct ov (add_overlap ov ?packed))"
      by (simp add: cc round_trip_def)
    have m: "map_option (spans ?packed) (round_trip cs ov doc) = Some True"
      unfolding rt using r by simp
    show ?thesis by (intro conjI cc s d m n)
  qed
  show ?thesis
  proof (intro conjI impI)
    show "\<exists>chunks. chunk_content cs ov doc = Some chunks" by (rule 1)
  next
    assume "\<not> has_blank_line doc"
    with True show "round_trip cs ov doc = Some doc" by simp
  next
    assume h: "has_blank_line doc \<and> 0 < ov
        \<and> (\<forall>p \<in> set (butlast ?packed). ov \<le> int (length p) + 1)"
    from h have p: "0 < ov" by (rule conjunct2 [THEN conjunct1])
    from h have l: "\<forall>p \<in> set (butlast ?packed). ov \<le> int (length p) + 1"
      by (rule conjunct2 [THEN conjunct2])
    note r = 2 [OF p l]
    show "chunk_content cs ov doc = Some (add_overlap ov ?packed)" by (rule cc)
    show "\<forall>c \<in> set ?packed. strip c = c" by (rule packed_stripped)
    show "spans ?packed doc" by (rule packed_spans_doc)
    show "map_option (spans ?packed) (round_trip cs ov doc) = Some True"
      by (rule r [THEN conjunct2, THEN conjunct2, THEN conjunct2, THEN conjunct1])
    show "map_option non_space (round_trip cs ov doc) = Some (non_space doc)"
      by (rule r [THEN conjunct2, THEN conjunct2, THEN conjunct2, THEN conjunct2])
  qed
qed

theorem chunk_round_trip_witness:
  "(0::int) \<le> 50 \<and> (50::int) < 500 \<and> 500 < int (length doc_plain)
   \<and> \<not> has_blank_line doc_plain \<and> length doc_plain = 5000
   \<and> round_trip 500 50 doc_plain = Some doc_plain
   \<and> (2::int) < 10 \<and> 10 < int (length doc_three) \<and> has_blank_line doc_three
   \<and> pack_paragraphs 10 [] [] (split_blank [] doc_three) = [''abcdefg'', ''hijklmnop'', ''qrs'']
   \<and> chunk_content 10 2 doc_three = Some [''abcdefg'', ''fg hijklmnop'', ''op qrs'']
   \<and> round_trip 10 2 doc_three = Some ''abcdefg hijklmnop qrs''
   \<and> spans [''abcdefg'', ''hijklmnop'', ''qrs''] doc_three
   \<and> spans [''abcdefg'', ''hijklmnop'', ''qrs''] ''abcdefg hijklmnop qrs''
   \<and> map_option non_space (round_trip 10 2 doc_three) = Some ''abcdefghijklmnopqrs''
   \<and> non_space doc_three = ''abcdefghijklmnopqrs''"
proof -
  have a: "(0::int) \<le> 50" "(50::int) < 500" "500 < int (length doc_plain)"
    "length doc_plain = 5000"
    by (simp_all add: doc_plain_def)
  have n: "newline \<notin> set doc_plain" by (simp add: doc_plain_def newline_def)
  have b: "\<not> has_blank_line doc_plain"
    by (simp add: has_blank_line_def split_blank_no_newline [OF n])
  have c: "(0::int) \<le> 2" "(2::int) < 10" "10 < int (length doc_three)"
    by (simp_all add: doc_three_def)
  have sp: "split_blank [] doc_three = [''abcdefg'', ''hijklmnop'', '' qrs '']"
    by (simp add: doc_three_def newline_def)
  have d: "has_blank_line doc_three" by (simp add: has_blank_line_def sp)
  have pk: "pack_paragraphs 10 [] [] (split_blank [] doc_three)
              = [''abcdefg'', ''hijklmnop'', ''qrs'']"
    unfolding sp by (simp add: strip_def is_space_def newline_def)
  have e: "\<forall>p \<in> set (butlast (pack_paragraphs 10 [] [] (split_blank [] doc_three))).
             2 \<le> int (length p) + 1"
    unfolding pk by simp
  have ch: "chunk_content 10 2 doc_three = Some [''abcdefg'', ''fg hijklmnop'', ''op qrs'']"
    unfolding chunk_content_blank_line [OF c(3) d] pk
    by (simp add: add_overlap_def overlap_of_def py_slice_from_def py_bound_def)
  have rt: "round_trip 10 2 doc_three = Some ''abcdefg hijklmnop qrs''"
    by (simp add: round_trip_def ch reconstruct_def)
  have ns: "non_space doc_three = ''abcdefghijklmnopqrs''"
    by (simp add: doc_three_def non_space_def is_space_def newline_def)
  note t1 = chunk_round_trip [OF a(1,2,3), THEN conjunct2, THEN conjunct1, rule_format, OF b]
  have r1: "round_trip 500 50 doc_plain = Some doc_plain" by (rule t1)
  have p: "(0::int) < 2" by simp
  note t = chunk_round_trip [OF c(1,2,3), THEN conjunct2, THEN conjunct2, rule_format,
      OF conjI [OF d conjI [OF p e]]]
  have s1: "spans [''abcdefg'', ''hijklmnop'', ''qrs''] doc_three"
    using t [THEN conjunct2, THEN conjunct2, THEN conjunct1] unfolding pk .
  have s2: "spans [''abcdefg'', ''hijklmnop'', ''qrs''] ''abcdefg hijklmnop qrs''"
    using t [THEN conjunct2, THEN conjunct2, THEN conjunct2, THEN conjunct1]
    unfolding pk rt by (simp only: option.map option.inject simp_thms)
  have r2: "map_option non_space (round_trip 10 2 doc_three) = Some ''abcdefghijklmnopqrs''"
    using t [THEN conjunct2, THEN conjunct2, THEN conjunct2, THEN conjunct2]
    unfolding ns .
  show ?thesis by (intro conjI a b c(2,3) d pk ch rt s1 s2 r1 r2 ns)
qed

text \<open>
  C3 as stated fails, also at length 5000 with sizes 500 and 50: a paragraph of 5
  characters, a blank line and a paragraph of 4993 characters. The second chunk is the
  first one, a space and the long paragraph, so dropping its first 50 characters removes
  44 characters of the paragraph: the reconstruction lacks them.
\<close>

theorem chunk_round_trip_loses_text_counterexample:
  "length doc_short_long = 5000
   \<and> chunk_content 500 50 doc_short_long = Some [''short'', ''short '' @ replicate 4993 CHR ''b'']
   \<and> round_trip 500 50 doc_short_long = Some (''short'' @ replicate 4949 CHR ''b'')
   \<and> non_space doc_short_long = ''short'' @ replicate 4993 CHR ''b''
   \<and> non_space (''short'' @ replicate 4949 CHR ''b'') \<noteq> non_space doc_short_long"
proof -
  have l: "length doc_short_long = 5000" by (simp add: doc_short_long_def)
  have r: "round_trip 500 50 doc_short_long = Some (''short'' @ replicate 4949 CHR ''b'')"
    by (simp add: round_trip_def chunks_short_long reconstruct_def)
  have fb: "non_space (replicate n CHR ''b'') = replicate n CHR ''b''" for n
    by (simp add: non_space_def not_space_b)
  have n1: "non_space doc_short_long = ''short'' @ replicate 4993 CHR ''b''"
    unfolding doc_short_long_def non_space_append fb
    by (simp add: non_space_def is_space_def newline_def)
  have n2: "non_space (''short'' @ replicate 4949 CHR ''b'') = ''short'' @ replicate 4949 CHR ''b''"
    unfolding non_space_append fb by (simp add: non_space_def is_space_def)
  have "length (''short'' @ replicate 4949 CHR ''b'') \<noteq> length (''short'' @ replicate 4993 CHR ''b'')"
    by simp
  then have ne: "non_space (''short'' @ replicate 4949 CHR ''b'') \<noteq> non_space doc_short_long"
    unfolding n1 n2 by (metis)
  show ?thesis by (intro conjI l chunks_short_long r n1 ne)
qed

section \<open>Store\<close>


lemma str_nat_digits: "str_nat 0 = ''0''" "str_nat (Suc 0) = ''1''"
  by (simp_all add: str_nat.simps digit_char_def)

lemma chunks_600:
  "chunk_content 500 50 doc_600 = Some [replicate 500 CHR ''a'', replicate 150 CHR ''a'']"
proof -
  have n: "newline \<notin> set doc_600" by (simp add: doc_600_def newline_def)
  have sp: "split_blank [] doc_600 = [doc_600]"
    by (simp add: split_blank_no_newline [OF n])
  have c: "chunk_content 500 50 doc_600 = window_loop 500 50 doc_600 0 []"
    by (simp add: chunk_content_def sp Let_def) (simp add: doc_600_def)
  have l: "int (length doc_600) = 600" by (simp add: doc_600_def)
  have s0: "py_slice doc_600 0 500 = replicate 500 CHR ''a''"
    by (simp add: py_slice_window) (simp add: doc_600_def)
  have s1: "py_slice doc_600 450 600 = replicate 150 CHR ''a''"
    by (simp add: py_slice_window) (simp add: doc_600_def)
  have w0: "window_loop 500 50 doc_600 0 [] = window_loop 500 50 doc_600 450 [replicate 500 CHR ''a'']"
    by (subst window_loop.simps) (simp add: l s0)
  have w1: "window_loop 500 50 doc_600 450 [replicate 500 CHR ''a'']
            = window_loop 500 50 doc_600 900 [replicate 500 CHR ''a'', replicate 150 CHR ''a'']"
    by (subst window_loop.simps) (simp add: l s1)
  have w2: "window_loop 500 50 doc_600 900 [replicate 500 CHR ''a'', replicate 150 CHR ''a'']
            = Some [replicate 500 CHR ''a'', replicate 150 CHR ''a'']"
    by (subst window_loop.simps) (simp add: l)
  show ?thesis unfolding c w0 w1 w2 ..
qed

lemma fresh_graph_simps:
  "initialized fresh_graph" "conn fresh_graph = Some []" "chunk_size fresh_graph = 500"
  "chunk_overlap fresh_graph = 50" "\<not> qdrant_available fresh_graph"
  "graph_model fresh_graph = ''mxbai-embed-large''" "graph_version fresh_graph = ''embed_v1''"
  "points fresh_graph = []"
  by (simp_all add: fresh_graph_def)

lemma embed_chunk_no_index: "\<not> qdrant_available g \<Longrightarrow> embed_chunk env i c g = g"
  by (simp add: embed_chunk_def split: option.splits)

lemma store_first_600:
  assumes "H doc_600 \<noteq> H (replicate 150 CHR ''a'')"
  shows "store H env doc_600 [] NOTE fresh_graph =
     Some (Success \<lparr> entry_id = ''mem_'' @ uuid_hex env, content = doc_600,
                     content_hash = H doc_600, metadata = [], timestamp = clock env,
                     memory_type = NOTE, embedding_model = Some ''mxbai-embed-large'' \<rparr>,
           fresh_graph\<lparr>conn := Some
             [\<lparr> row_id = ''mem_'' @ uuid_hex env @ ''_chunk0'',
                 row_content = replicate 500 CHR ''a'', row_hash = H doc_600,
                 row_metadata = [(''chunk'', chunk_metadata_dict (''mem_'' @ uuid_hex env) 0 2)],
                 row_timestamp = clock env, row_type = NOTE,
                 row_model = Some ''mxbai-embed-large'', row_version = ''embed_v1'' \<rparr>,
              \<lparr> row_id = ''mem_'' @ uuid_hex env @ ''_chunk1'',
                 row_content = replicate 150 CHR ''a'', row_hash = H (replicate 150 CHR ''a''),
                 row_metadata = [(''chunk'', chunk_metadata_dict (''mem_'' @ uuid_hex env) 1 2)],
                 row_timestamp = clock env, row_type = NOTE,
                 row_model = Some ''mxbai-embed-large'', row_version = ''embed_v1'' \<rparr>]\<rparr>)"
proof -
  have l: "length doc_600 = 600" by (simp add: doc_600_def)
  have h: "H (replicate 150 CHR ''a'') \<noteq> H doc_600" using assms by simp
  show ?thesis
    by (simp add: store_def get_by_hash_def fresh_graph_simps l chunks_600 Let_def
        insert_row_def embed_chunk_no_index str_nat_digits h numeral_2_eq_2)
qed

lemma store_existing:
  assumes "initialized g" and "conn g = Some rows"
    and "find (\<lambda>r. row_hash r = H doc) rows = Some row"
  shows "store H env doc md mt g =
           Some (Success (row_to_entry row),
                 g\<lparr>conn := Some (touch_hash (H doc) (clock env) rows)\<rparr>)"
  using assms by (simp add: store_def get_by_hash_def Let_def)

lemma touch_hash_keeps:
  "length (touch_hash h now rows) = length rows"
  "map row_id (touch_hash h now rows) = map row_id rows"
  "map row_hash (touch_hash h now rows) = map row_hash rows"
  "map row_content (touch_hash h now rows) = map row_content rows"
  by (simp_all add: touch_hash_def comp_def)

lemma touch_hash_filter_comm:
  "filter (\<lambda>r. row_hash r = h) (touch_hash h' now rows)
     = touch_hash h' now (filter (\<lambda>r. row_hash r = h) rows)"
  by (induction rows) (auto simp: touch_hash_def)

lemma touch_hash_filter:
  "length (filter (\<lambda>r. row_hash r = h) (touch_hash h' now rows))
     = length (filter (\<lambda>r. row_hash r = h) rows)"
  by (simp only: touch_hash_filter_comm touch_hash_keeps(1))

lemma find_append_new:
  assumes "h \<notin> set (map row_hash rows)" and "row_hash row = h"
  shows "find (\<lambda>r. row_hash r = h) (rows @ [row]) = Some row"
  using assms by (induction rows) auto

text \<open>
  The part of C1 that holds: a content no longer than \<open>chunk_size\<close> is stored as one row
  under the new id, and storing it again returns that id, adds no row and only renews the
  timestamp.
\<close>

lemma store_twice_unchunked:
  assumes "initialized g" and "conn g = Some rows" and "int (length doc) \<le> chunk_size g"
    and "H doc \<notin> set (map row_hash rows)"
    and "''mem_'' @ uuid_hex env \<notin> set (map row_id rows)"
  shows "\<exists>e1 g1 e2 g2 rows2.
           store H env doc md mt g = Some (Success e1, g1)
         \<and> store H env' doc md' mt' g1 = Some (Success e2, g2)
         \<and> entry_id e1 = ''mem_'' @ uuid_hex env \<and> entry_id e2 = entry_id e1
         \<and> content e2 = doc
         \<and> conn g2 = Some rows2 \<and> length rows2 = Suc (length rows)
         \<and> length (filter (\<lambda>r. row_hash r = H doc) rows2) = 1
         \<and> points g2 = points g1"
proof -
  define mid where "mid = ''mem_'' @ uuid_hex env"
  define row where "row = \<lparr> row_id = mid, row_content = doc, row_hash = H doc,
      row_metadata = md, row_timestamp = clock env, row_type = mt,
      row_model = Some (graph_model g), row_version = graph_version g \<rparr>"
  define g1 where "g1 = embed_chunk env mid doc (g\<lparr>conn := Some (rows @ [row])\<rparr>)"
  define e1 where "e1 = \<lparr> entry_id = mid, content = doc, content_hash = H doc,
      metadata = md, timestamp = clock env, memory_type = mt,
      embedding_model = Some (graph_model g1) \<rparr>"
  have nf: "find (\<lambda>r. row_hash r = H doc) rows = None"
    using assms(4) by (auto simp: find_None_iff image_iff)
  have ins: "insert_row row rows = Inr (rows @ [row])"
    using assms(4,5) by (simp add: insert_row_def row_def mid_def)
  have s1: "store H env doc md mt g = Some (Success e1, g1)"
    using assms(1,2,3) nf ins unfolding e1_def g1_def row_def mid_def
    by (simp add: store_def get_by_hash_def Let_def)
  have c1: "conn g1 = Some (rows @ [row])" and i1: "initialized g1"
    using assms(1)
    by (simp_all add: g1_def embed_chunk_def split: option.splits prod.splits Result.splits)
  have f1: "find (\<lambda>r. row_hash r = H doc) (rows @ [row]) = Some row"
    by (rule find_append_new [OF assms(4)]) (simp add: row_def)
  define g2 where "g2 = g1\<lparr>conn := Some (touch_hash (H doc) (clock env') (rows @ [row]))\<rparr>"
  have s2: "store H env' doc md' mt' g1 = Some (Success (row_to_entry row), g2)"
    unfolding g2_def
    by (rule store_existing [where H = H and doc = doc and rows = "rows @ [row]", OF i1 c1 f1])
  have fr: "filter (\<lambda>r. row_hash r = H doc) rows = []"
    using assms(4) by (auto simp: filter_empty_conv image_iff)
  have cnt: "length (filter (\<lambda>r. row_hash r = H doc)
               (touch_hash (H doc) (clock env') (rows @ [row]))) = 1"
    unfolding touch_hash_filter by (simp add: fr row_def)
  show ?thesis
    apply (rule exI [of _ e1], rule exI [of _ g1])
    apply (rule exI [of _ "row_to_entry row"], rule exI [of _ g2])
    apply (rule exI [of _ "touch_hash (H doc) (clock env') (rows @ [row])"])
    using s1 s2 cnt
    by (simp add: e1_def row_to_entry_def row_def g2_def touch_hash_keeps mid_def)
qed

text \<open>
  C1 at a chunked content: 600 characters, sizes 500 and 50, a fresh graph, a hash that
  tells the content from its second chunk. The first \<open>store\<close> returns the new id
  \<open>mem_...\<close>; the row that carries the content's hash is the first chunk, so the second
  \<open>store\<close> returns the entry of that chunk: another id (\<open>mem_..._chunk0\<close>) and the
  first 500 characters as content. No row is added by the second \<open>store\<close>.
\<close>

theorem store_again_returns_chunk_entry:
  assumes "H doc_600 \<noteq> H (replicate 150 CHR ''a'')"
  shows "store_twice_ids H env env' doc_600 fresh_graph
           = Some (''mem_'' @ uuid_hex env, ''mem_'' @ uuid_hex env @ ''_chunk0'')
       \<and> (\<exists>e1 g1 e2 g2.
           store H env doc_600 [] NOTE fresh_graph = Some (Success e1, g1)
         \<and> store H env' doc_600 [] NOTE g1 = Some (Success e2, g2)
         \<and> entry_id e1 = ''mem_'' @ uuid_hex env
         \<and> entry_id e2 = ''mem_'' @ uuid_hex env @ ''_chunk0''
         \<and> entry_id e2 \<noteq> entry_id e1
         \<and> content e1 = doc_600 \<and> content e2 = replicate 500 CHR ''a''
         \<and> map_option (map row_id) (conn g1)
               = Some [''mem_'' @ uuid_hex env @ ''_chunk0'', ''mem_'' @ uuid_hex env @ ''_chunk1'']
         \<and> map_option (map row_id) (conn g2) = map_option (map row_id) (conn g1))"
proof -
  define row0 where "row0 = \<lparr> row_id = ''mem_'' @ uuid_hex env @ ''_chunk0'',
                 row_content = replicate 500 CHR ''a'', row_hash = H doc_600,
                 row_metadata = [(''chunk'', chunk_metadata_dict (''mem_'' @ uuid_hex env) 0 2)],
                 row_timestamp = clock env, row_type = NOTE,
                 row_model = Some ''mxbai-embed-large'', row_version = ''embed_v1'' \<rparr>"
  define row1 where "row1 = \<lparr> row_id = ''mem_'' @ uuid_hex env @ ''_chunk1'',
                 row_content = replicate 150 CHR ''a'', row_hash = H (replicate 150 CHR ''a''),
                 row_metadata = [(''chunk'', chunk_metadata_dict (''mem_'' @ uuid_hex env) 1 2)],
                 row_timestamp = clock env, row_type = NOTE,
                 row_model = Some ''mxbai-embed-large'', row_version = ''embed_v1'' \<rparr>"
  define e1 where "e1 = \<lparr> entry_id = ''mem_'' @ uuid_hex env, content = doc_600,
                     content_hash = H doc_600, metadata = [], timestamp = clock env,
                     memory_type = NOTE, embedding_model = Some ''mxbai-embed-large'' \<rparr>"
  define g1 where "g1 = fresh_graph\<lparr>conn := Some [row0, row1]\<rparr>"
  define g2 where "g2 = g1\<lparr>conn := Some (touch_hash (H doc_600) (clock env') [row0, row1])\<rparr>"
  have s1: "store H env doc_600 [] NOTE fresh_graph = Some (Success e1, g1)"
    unfolding e1_def g1_def row0_def row1_def by (rule store_first_600 [OF assms])
  have i1: "initialized g1" and c1: "conn g1 = Some [row0, row1]"
    by (simp_all add: g1_def fresh_graph_simps)
  have f1: "find (\<lambda>r. row_hash r = H doc_600) [row0, row1] = Some row0"
    by (simp add: row0_def)
  have s2: "store H env' doc_600 [] NOTE g1 = Some (Success (row_to_entry row0), g2)"
    unfolding g2_def
    by (rule store_existing [where H = H and doc = doc_600 and rows = "[row0, row1]",
          OF i1 c1 f1])
  have t: "store_twice_ids H env env' doc_600 fresh_graph
           = Some (''mem_'' @ uuid_hex env, ''mem_'' @ uuid_hex env @ ''_chunk0'')"
    by (simp add: store_twice_ids_def s1 s2) (simp add: e1_def row_to_entry_def row0_def)
  have ex: "\<exists>e1 g1 e2 g2.
           store H env doc_600 [] NOTE fresh_graph = Some (Success e1, g1)
         \<and> store H env' doc_600 [] NOTE g1 = Some (Success e2, g2)
         \<and> entry_id e1 = ''mem_'' @ uuid_hex env
         \<and> entry_id e2 = ''mem_'' @ uuid_hex env @ ''_chunk0''
         \<and> entry_id e2 \<noteq> entry_id e1
         \<and> content e1 = doc_600 \<and> content e2 = replicate 500 CHR ''a''
         \<and> map_option (map row_id) (conn g1)
               = Some [''mem_'' @ uuid_hex env @ ''_chunk0'', ''mem_'' @ uuid_hex env @ ''_chunk1'']
         \<and> map_option (map row_id) (conn g2) = map_option (map row_id) (conn g1)"
    apply (rule exI [of _ e1], rule exI [of _ g1])
    apply (rule exI [of _ "row_to_entry row0"], rule exI [of _ g2])
    using s1 s2
    by (simp add: e1_def g1_def g2_def row_to_entry_def row0_def row1_def touch_hash_keeps)
  from t ex show ?thesis by (rule conjI)
qed

theorem store_again_returns_chunk_entry_witness:
  "doc_600 \<noteq> replicate 150 CHR ''a''
   \<and> store_twice_ids (\<lambda>s. s) env_store env_store doc_600 fresh_graph
        = Some (''mem_0123456789ab'', ''mem_0123456789ab_chunk0'')"
proof -
  have h: "(\<lambda>s. s) doc_600 \<noteq> (\<lambda>s. s) (replicate 150 CHR ''a'')"
    using arg_cong [of doc_600 "replicate 150 CHR ''a''" length] by (auto simp: doc_600_def)
  from store_again_returns_chunk_entry [of "\<lambda>s. s", OF h, of env_store env_store]
  have "store_twice_ids (\<lambda>s. s) env_store env_store doc_600 fresh_graph
        = Some (''mem_'' @ uuid_hex env_store, ''mem_'' @ uuid_hex env_store @ ''_chunk0'')"
    by (elim conjE)
  then show ?thesis using h by (simp add: env_store_def)
qed

section \<open>The cache of an engine in use\<close>

text \<open>
  Every state that \<open>embed\<close> calls reach from a fresh engine with a non-negative
  \<open>cache_size\<close> has a well-formed cache within its bound.
\<close>

lemma cache_ok_cong:
  assumes "cache s' = cache s" "cache_order s' = cache_order s" "cache_size s' = cache_size s"
  shows "cache_ok s' = cache_ok s"
  using assms by (simp add: cache_ok_def cache_inv_def cache_keys_def)

lemma add_to_cache_ok:
  assumes "cache_ok s"
  shows "cache_ok (fst (add_to_cache k v s))"
proof -
  from assms have i: "cache_inv s" and b: "int (length (cache s)) \<le> cache_size s"
    by (simp_all add: cache_ok_def)
  have "cache_inv (fst (add_to_cache k v s))" by (rule add_to_cache_inv [OF i])
  moreover have "cache_size (fst (add_to_cache k v s)) = cache_size s"
    unfolding add_to_cache_unfold [OF i] by simp
  moreover have "int (length (cache (fst (add_to_cache k v s)))) \<le> cache_size s"
    unfolding add_to_cache_length [OF i] keys_after_length using b by auto
  ultimately show ?thesis by (simp add: cache_ok_def)
qed

lemma embed_cache_ok:
  assumes "cache_ok s"
  shows "cache_ok (snd (embed net t s))"
proof (cases "cache_miss t s")
  case True
  let ?s1 = "s\<lparr>cache_misses := cache_misses s + 1\<rparr>"
  have o1: "cache_ok ?s1" using assms by (simp add: cache_ok_cong [of ?s1 s])
  have fb: "cache_ok (snd (fallback_embed net t ?s1))"
    using o1 by (simp add: cache_ok_cong [of "snd (fallback_embed net t ?s1)" ?s1]
        fallback_embed_cache)
  have ad: "cache_ok s2" if "add_to_cache k v ?s1 = (s2, r)" for k v s2 r
    using add_to_cache_ok [OF o1, of k v] that by simp
  show ?thesis
    unfolding embed_miss [OF True]
    using o1 fb ad
    by (auto simp: Let_def split: http_reply.splits option.splits prod.splits)
next
  case False
  then consider "t = [] \<or> strip t = []"
    | e where "t \<noteq> []" "strip t \<noteq> []" "map_of (cache s) (cache_key s t) = Some e"
    by (auto simp: cache_miss_def)
  then show ?thesis
  proof cases
    case 1
    then show ?thesis using assms by (simp add: embed_blank)
  next
    case 2
    then show ?thesis
      using assms
      by (simp add: embed_hit cache_ok_cong [of "s\<lparr>cache_hits := cache_hits s + 1\<rparr>" s])
  qed
qed

lemma run_embeds_cache_ok: "cache_ok s \<Longrightarrow> cache_ok (run_embeds cs s)"
proof (induction cs arbitrary: s)
  case Nil
  then show ?case by (simp add: run_embeds_Nil)
next
  case (Cons c cs)
  obtain net t where c: "c = (net, t)" by (cases c)
  show ?case unfolding c run_embeds_Cons by (rule Cons.IH) (rule embed_cache_ok [OF Cons.prems])
qed

lemma new_engine_cache_ok: "0 \<le> n \<Longrightarrow> cache_ok (new_engine m d n)"
  by (simp add: cache_ok_def cache_inv_def cache_keys_def new_engine_def)

lemma fresh_engine_stays_bounded:
  assumes "0 \<le> n"
  shows "cache_inv (run_embeds cs (new_engine m d n))"
    and "int (length (cache (run_embeds cs (new_engine m d n))))
           \<le> cache_size (run_embeds cs (new_engine m d n))"
  using run_embeds_cache_ok [OF new_engine_cache_ok [OF assms], of cs m d]
  by (simp_all add: cache_ok_def)

end
